theory Spec2Isabelle
  imports Main "HOL-Library.Word" "HOL-Library.Signed_Division"
begin

unbundle bit_operations_syntax

section \<open>Data model\<close>

text \<open>
  \<^verbatim>\<open>type ID []byte\<close>: an identifier is a byte slice of any length. Go strings are byte
  sequences as well, and \<^verbatim>\<open>len\<close> counts bytes; they are modelled as \<^typ>\<open>string\<close>,
  whose characters are bytes.
\<close>

type_synonym byte = "8 word"
type_synonym ID = "byte list"

text \<open>The errors the package returns. The three prefix errors are the three
  \<^verbatim>\<open>errors.New\<close>/\<^verbatim>\<open>fmt.Errorf\<close> values of \<^verbatim>\<open>validatePrefix\<close>.\<close>

datatype error =
    ErrPrefixSeparator
  | ErrPrefixWhitespace
  | ErrPrefixLength
  | errBytesSizeMismatch
  | errStringSizeMismatch
  | ErrInvalidBase58
  | ErrScanType

text \<open>A call either returns or panics.\<close>

datatype 'a outcome = Returns 'a | Panics

definition prefixAllowedLen :: nat where "prefixAllowedLen = 3"
definition timeBytesLen :: nat where "timeBytesLen = 7"
definition randomBytesLen :: nat where "randomBytesLen = 12"
definition byteLength :: nat where "byteLength = timeBytesLen + randomBytesLen"
definition stringEncodedLen :: nat where "stringEncodedLen = 25"
definition stringEncodedLenWithPrefix :: nat where
  "stringEncodedLenWithPrefix = 3 + 1 + stringEncodedLen"

definition separator :: string where "separator = ''-''"

text \<open>The conversions \<^verbatim>\<open>[]byte(s)\<close> and \<^verbatim>\<open>string(b)\<close>.\<close>

definition bytes_of_string :: "string \<Rightarrow> byte list" where
  "bytes_of_string s = map of_char s"

definition string_of_bytes :: "byte list \<Rightarrow> string" where
  "string_of_bytes b = map (\<lambda>x. char_of (unat x)) b"

definition separatorBytes :: "byte list" where
  "separatorBytes = bytes_of_string separator"

definition alphabets :: string where
  "alphabets = ''123456789ABCDEFGHJKLMNPQRSTUVWXYZabcdefghijkmnopqrstuvwxyz''"

section \<open>Library functions the package calls\<close>

subsection \<open>Package strings and bytes\<close>

definition HasPrefix :: "'a list \<Rightarrow> 'a list \<Rightarrow> bool" where
  "HasPrefix s p = (take (length p) s = p)"

definition HasSuffix :: "'a list \<Rightarrow> 'a list \<Rightarrow> bool" where
  "HasSuffix s p = (length p \<le> length s \<and> drop (length s - length p) s = p)"

text \<open>\<^verbatim>\<open>strings.Index\<close> and \<^verbatim>\<open>bytes.Index\<close>: the index of the first occurrence of
  \<open>sub\<close> in \<open>s\<close>; Go's \<open>-1\<close> is \<open>None\<close>.\<close>

fun Index :: "'a list \<Rightarrow> 'a list \<Rightarrow> nat option" where
  "Index [] sub = (if sub = [] then Some 0 else None)"
| "Index (x # t) sub =
     (if HasPrefix (x # t) sub then Some 0 else map_option Suc (Index t sub))"

definition Contains :: "'a list \<Rightarrow> 'a list \<Rightarrow> bool" where
  "Contains s sub = (Index s sub \<noteq> None)"

definition TrimSuffix :: "'a list \<Rightarrow> 'a list \<Rightarrow> 'a list" where
  "TrimSuffix s suffix =
     (if HasSuffix s suffix then take (length s - length suffix) s else s)"

text \<open>The builtin \<^verbatim>\<open>copy(dst[lo:hi], src)\<close>: it copies \<open>min (hi - lo) (len src)\<close>
  elements and leaves the rest of \<open>dst\<close> as it was.\<close>

definition copy_slice :: "'a list \<Rightarrow> nat \<Rightarrow> nat \<Rightarrow> 'a list \<Rightarrow> 'a list" where
  "copy_slice dst lo hi src =
     (let n = min (hi - lo) (length src)
      in take lo dst @ take n src @ drop (lo + n) dst)"

subsection \<open>Package base58 (github.com/mr-tron/base58)\<close>

text \<open>
  The base-58 codec is a dependency of the package, not part of it. It is modelled by
  what it computes: the input bytes are read as one big-endian number, which is written
  in base 58 with the digits of the alphabet, most significant digit first and with no
  leading zero digit; every leading zero byte of the input becomes one leading copy of
  the alphabet's first symbol. Decoding inverts this, and fails on the empty string and
  on a character that is not in the alphabet.
\<close>

text \<open>The digits of \<open>n\<close> in base \<open>b\<close>, most significant first; no digit for 0.\<close>

function digits :: "nat \<Rightarrow> nat \<Rightarrow> nat list" where
  "digits b n = (if n = 0 \<or> b < 2 then [] else digits b (n div b) @ [n mod b])"
  by pat_completeness auto
termination
  by (relation "measure snd") auto

declare digits.simps [simp del]

definition from_digits :: "nat \<Rightarrow> nat list \<Rightarrow> nat" where
  "from_digits b ds = foldl (\<lambda>a d. a * b + d) 0 ds"

text \<open>The numeric value of a digit character (the decode table of the alphabet).\<close>

definition b58_digit :: "char \<Rightarrow> nat option" where
  "b58_digit c = Index alphabets [c]"

fun decode_digits :: "string \<Rightarrow> nat list option" where
  "decode_digits [] = Some []"
| "decode_digits (c # cs) =
     (case b58_digit c of
        None \<Rightarrow> None
      | Some d \<Rightarrow> map_option ((#) d) (decode_digits cs))"

definition EncodeAlphabet :: "byte list \<Rightarrow> string" where
  "EncodeAlphabet bin =
     (let zcount = length (takeWhile (\<lambda>x. x = 0) bin)
      in replicate zcount (alphabets ! 0)
         @ map (\<lambda>d. alphabets ! d) (digits 58 (from_digits 256 (map unat bin))))"

definition DecodeAlphabet :: "string \<Rightarrow> byte list option" where
  "DecodeAlphabet str =
     (if str = [] then None
      else case decode_digits str of
        None \<Rightarrow> None
      | Some ds \<Rightarrow>
          (let zcount = length (takeWhile (\<lambda>c. c = alphabets ! 0) str)
           in Some (replicate zcount 0 @ map of_nat (digits 256 (from_digits 58 ds)))))"

section \<open>The package\<close>

definition validatePrefix :: "string \<Rightarrow> bool \<Rightarrow> error option" where
  "validatePrefix str0 separatorAsInvalid =
     (let str = (if \<not> separatorAsInvalid then TrimSuffix str0 separator else str0)
      in if Contains str separator then Some ErrPrefixSeparator
         else if Contains str '' '' then Some ErrPrefixWhitespace
         else if length str > 0 \<and> length str \<noteq> prefixAllowedLen then Some ErrPrefixLength
         else None)"

text \<open>\<^verbatim>\<open>getRandomBytes\<close>: the argument is what \<^verbatim>\<open>rand.Read\<close> did with the 12-byte buffer:
  \<open>None\<close> when it reports an error (the function panics), \<open>Some r\<close> the bytes it
  wrote into the zeroed buffer.\<close>

definition getRandomBytes :: "byte list option \<Rightarrow> byte list outcome" where
  "getRandomBytes entropy =
     (let b = replicate randomBytesLen 0
      in case entropy of
           None \<Rightarrow> Panics
         | Some r \<Rightarrow> Returns (copy_slice b 0 (length b) r))"

text \<open>\<^verbatim>\<open>uint64(time.Since(epochTime) / 100)\<close>: the elapsed time is a \<^verbatim>\<open>time.Duration\<close>, a signed
  count of nanoseconds; Go's division truncates towards zero, and the conversion to
  \<^verbatim>\<open>uint64\<close> wraps.\<close>

definition ticks :: "int \<Rightarrow> 64 word" where
  "ticks elapsed = word_of_int (elapsed sdiv 100)"

definition shifted_ts :: "64 word \<Rightarrow> 64 word" where
  "shifted_ts ts = push_bit 8 ts AND 0xFFFFFFFFFFFFFF00"

text \<open>\<^verbatim>\<open>newID\<close>, given the clock reading (nanoseconds since the epoch) and the entropy
  source's answer.\<close>

definition newID :: "string \<Rightarrow> int \<Rightarrow> byte list option \<Rightarrow> (error + ID) outcome" where
  "newID prefix0 elapsed entropy =
     (case validatePrefix prefix0 True of
        Some err \<Rightarrow> Returns (Inl err)
      | None \<Rightarrow>
          (let (prefix, prefixLen) =
                 (if length prefix0 > 0
                  then (prefix0 @ separator, prefixAllowedLen + length separator)
                  else (prefix0, 0));
               ts = shifted_ts (ticks elapsed)
           in case getRandomBytes entropy of
                Panics \<Rightarrow> Panics
              | Returns rnd \<Rightarrow>
                  (let id0 = replicate (prefixLen + byteLength) (0 :: byte);
                       id1 = copy_slice id0 0 prefixLen (bytes_of_string prefix);
                       id2 = id1[prefixLen + 0 := ucast (drop_bit 56 ts)];
                       id3 = id2[prefixLen + 1 := ucast (drop_bit 48 ts)];
                       id4 = id3[prefixLen + 2 := ucast (drop_bit 40 ts)];
                       id5 = id4[prefixLen + 3 := ucast (drop_bit 32 ts)];
                       id6 = id5[prefixLen + 4 := ucast (drop_bit 24 ts)];
                       id7 = id6[prefixLen + 5 := ucast (drop_bit 16 ts)];
                       id8 = id7[prefixLen + 6 := ucast (drop_bit 8 ts)];
                       id9 = copy_slice id8 (prefixLen + 7) (length id8) rnd
                   in Returns (Inr id9))))"

definition New :: "string \<Rightarrow> int \<Rightarrow> byte list option \<Rightarrow> (error + ID) outcome" where
  "New prefix elapsed entropy = newID prefix elapsed entropy"

definition ID_Bytes :: "ID \<Rightarrow> byte list" where
  "ID_Bytes t = t"

definition ID_String :: "ID \<Rightarrow> string outcome" where
  "ID_String t =
     (if length t > byteLength then
        (case Index t separatorBytes of
           None \<Rightarrow> Panics
         | Some separatorIndex \<Rightarrow>
             Returns (string_of_bytes (take (separatorIndex + 1) t)
                      @ EncodeAlphabet (drop (separatorIndex + 1) t)))
      else Returns ('''' @ EncodeAlphabet t))"

definition GenerateWithPrefix :: "string \<Rightarrow> int \<Rightarrow> byte list option \<Rightarrow> string outcome" where
  "GenerateWithPrefix prefix0 elapsed entropy =
     (let prefix = TrimSuffix prefix0 separator
      in case New prefix elapsed entropy of
           Panics \<Rightarrow> Panics
         | Returns (Inl err) \<Rightarrow> Panics
         | Returns (Inr ident) \<Rightarrow> ID_String ident)"

definition Generate :: "int \<Rightarrow> byte list option \<Rightarrow> string outcome" where
  "Generate elapsed entropy = GenerateWithPrefix '''' elapsed entropy"

definition FromBytes :: "byte list \<Rightarrow> error + ID" where
  "FromBytes bytes =
     (let ident = replicate (length bytes) (0 :: byte)
      in if length bytes < byteLength then Inl errBytesSizeMismatch
         else Inr (copy_slice ident 0 (length ident) bytes))"

definition parseInternal :: "string \<Rightarrow> string \<Rightarrow> error + ID" where
  "parseInternal prefix text =
     (if length text < stringEncodedLen then Inl errStringSizeMismatch
      else case validatePrefix prefix False of
        Some err \<Rightarrow> Inl err
      | None \<Rightarrow>
          (case DecodeAlphabet text of
             None \<Rightarrow> Inl ErrInvalidBase58
           | Some bs \<Rightarrow> FromBytes (bytes_of_string prefix @ bs)))"

definition Parse :: "string \<Rightarrow> error + ID" where
  "Parse text =
     (case Index text separator of
        Some prefixIndex \<Rightarrow>
          parseInternal (take (prefixIndex + 1) text) (drop (prefixIndex + 1) text)
      | None \<Rightarrow>
          if length text \<ge> stringEncodedLen then parseInternal '''' text
          else Inl errStringSizeMismatch)"

text \<open>The methods on \<^verbatim>\<open>*ID\<close> take the receiver's current value and return the error
  together with the receiver's new value.\<close>

definition ID_UnmarshalText :: "ID \<Rightarrow> byte list \<Rightarrow> error option \<times> ID" where
  "ID_UnmarshalText t b =
     (case Parse (string_of_bytes b) of
        Inl err \<Rightarrow> (Some err, t)
      | Inr ident \<Rightarrow> (None, ident))"

text \<open>\<^verbatim>\<open>*t, err = FromBytes(b)\<close> assigns the receiver on failure too (a nil slice).\<close>

definition ID_UnmarshalBinary :: "ID \<Rightarrow> byte list \<Rightarrow> error option \<times> ID" where
  "ID_UnmarshalBinary t b =
     (case FromBytes b of
        Inl err \<Rightarrow> (Some err, [])
      | Inr ident \<Rightarrow> (None, ident))"

definition ID_MarshalText :: "ID \<Rightarrow> (byte list \<times> error option) outcome" where
  "ID_MarshalText t =
     (case ID_String t of
        Panics \<Rightarrow> Panics
      | Returns s \<Rightarrow> Returns (bytes_of_string s, None))"

definition ID_MarshalBinary :: "ID \<Rightarrow> byte list \<times> error option" where
  "ID_MarshalBinary t = (ID_Bytes t, None)"

definition ID_scan :: "ID \<Rightarrow> byte list \<Rightarrow> error option \<times> ID" where
  "ID_scan t b =
     (if length b = 0 then (None, t)
      else if length b = byteLength \<or> length b = prefixAllowedLen + byteLength
        then ID_UnmarshalBinary t b
      else if length b = stringEncodedLen \<or> length b = prefixAllowedLen + stringEncodedLen
        then ID_UnmarshalText t b
      else (Some errBytesSizeMismatch, t))"

text \<open>A value of interface type (\<^verbatim>\<open>interface{}\<close>, \<^verbatim>\<open>driver.Value\<close>) carries its dynamic
  type. These are the dynamic types \<^verbatim>\<open>Scan\<close> switches on, the named type \<^verbatim>\<open>ID\<close> itself,
  which is distinct from \<^verbatim>\<open>[]byte\<close> and has no case in the switch, and \<open>SrcOther\<close> for every
  other type.\<close>

datatype scan_src =
    SrcNil
  | SrcBytes "byte list"
  | SrcBuffer "byte list"
  | SrcBufferPtr "byte list"
  | SrcString string
  | SrcID ID
  | SrcOther


text \<open>The type switch of \<^verbatim>\<open>Scan\<close>; its default branch is the error
  \<^verbatim>\<open>unable to scan type %T into ID\<close>.\<close>

fun ID_Scan :: "ID \<Rightarrow> scan_src \<Rightarrow> error option \<times> ID" where
  "ID_Scan t SrcNil = ID_scan t []"
| "ID_Scan t (SrcBytes v) = ID_scan t v"
| "ID_Scan t (SrcBuffer v) = ID_scan t v"
| "ID_Scan t (SrcBufferPtr v) = ID_scan t v"
| "ID_Scan t (SrcString v) = ID_scan t (bytes_of_string v)"
| "ID_Scan t (SrcID v) = (Some ErrScanType, t)"
| "ID_Scan t SrcOther = (Some ErrScanType, t)"

section \<open>Slices in memory\<close>

text \<open>
  \<^verbatim>\<open>FromBytes\<close> copies its argument so that the identifier does not share memory with
  the caller's slice. To state that, the same function is modelled a second time over an
  explicit memory: a list of backing arrays, a slice being a window into one of them.
\<close>

type_synonym heap = "byte list list"

record slice =
  s_base :: nat
  s_off :: nat
  s_len :: nat

definition slice_ok :: "heap \<Rightarrow> slice \<Rightarrow> bool" where
  "slice_ok h s = (s_base s < length h \<and> s_off s + s_len s \<le> length (h ! s_base s))"

definition slice_bytes :: "heap \<Rightarrow> slice \<Rightarrow> byte list" where
  "slice_bytes h s = take (s_len s) (drop (s_off s) (h ! s_base s))"

text \<open>\<^verbatim>\<open>make([]byte, n)\<close> allocates a new zeroed array.\<close>

definition make_bytes :: "heap \<Rightarrow> nat \<Rightarrow> heap \<times> slice" where
  "make_bytes h n = (h @ [replicate n 0], \<lparr>s_base = length h, s_off = 0, s_len = n\<rparr>)"

definition copy_heap :: "heap \<Rightarrow> slice \<Rightarrow> slice \<Rightarrow> heap" where
  "copy_heap h dst src =
     h[s_base dst := copy_slice (h ! s_base dst) (s_off dst) (s_off dst + s_len dst)
                       (slice_bytes h src)]"

text \<open>The assignment \<^verbatim>\<open>s[i] = v\<close>, for an index in range.\<close>

definition store_byte :: "heap \<Rightarrow> slice \<Rightarrow> nat \<Rightarrow> byte \<Rightarrow> heap" where
  "store_byte h s i v = h[s_base s := (h ! s_base s)[s_off s + i := v]]"

definition FromBytes_heap :: "heap \<Rightarrow> slice \<Rightarrow> heap \<times> (error + slice)" where
  "FromBytes_heap h bytes =
     (let (h1, ident) = make_bytes h (s_len bytes)
      in if s_len bytes < byteLength then (h1, Inl errBytesSizeMismatch)
         else (copy_heap h1 ident bytes, Inr ident))"

section \<open>Notions the properties are stated with\<close>

text \<open>The order of Go's \<^verbatim>\<open><\<close> on strings, which \<^verbatim>\<open>sort.Strings\<close> uses: bytewise
  lexicographic.\<close>

fun lex_less :: "string \<Rightarrow> string \<Rightarrow> bool" where
  "lex_less [] [] = False"
| "lex_less [] (y # ys) = True"
| "lex_less (x # xs) [] = False"
| "lex_less (x # xs) (y # ys) =
     ((of_char x :: nat) < of_char y \<or> (x = y \<and> lex_less xs ys))"

text \<open>The part of a text that \<^verbatim>\<open>Parse\<close> hands to \<^verbatim>\<open>parseInternal\<close> as the encoded
  payload: what follows the first separator, or the whole text when there is none.\<close>

definition payload_text :: "string \<Rightarrow> string" where
  "payload_text text =
     (case Index text separator of
        Some prefixIndex \<Rightarrow> drop (prefixIndex + 1) text
      | None \<Rightarrow> text)"

text \<open>The last \<open>byteLength\<close> bytes of an identifier: timestamp and randomness.\<close>

definition payload :: "ID \<Rightarrow> byte list" where
  "payload t = drop (length t - byteLength) t"

text \<open>The seven bytes \<^verbatim>\<open>newID\<close> stores for a shifted timestamp, in the order it stores
  them.\<close>

definition ts_bytes :: "64 word \<Rightarrow> byte list" where
  "ts_bytes ts = map (\<lambda>i. ucast (drop_bit (56 - 8 * i) ts)) [0..<7]"

section \<open>Positional notation\<close>

lemma digits_zero [simp]: "digits b 0 = []"
  by (simp add: digits.simps)

lemma digits_step: "2 \<le> b \<Longrightarrow> 0 < n \<Longrightarrow> digits b n = digits b (n div b) @ [n mod b]"
  by (subst digits.simps) simp

lemma from_digits_Nil [simp]: "from_digits b [] = 0"
  by (simp add: from_digits_def)

lemma from_digits_snoc [simp]: "from_digits b (ds @ [d]) = from_digits b ds * b + d"
  by (simp add: from_digits_def)

lemma from_digits_digits: "2 \<le> b \<Longrightarrow> from_digits b (digits b n) = n"
proof (induction b n rule: digits.induct)
  case (1 b n)
  show ?case
  proof (cases "n = 0")
    case True
    then show ?thesis by simp
  next
    case False
    with 1 have "from_digits b (digits b (n div b)) = n div b" by simp
    with False 1(2) show ?thesis by (simp add: digits_step)
  qed
qed

lemma digits_less: "2 \<le> b \<Longrightarrow> d \<in> set (digits b n) \<Longrightarrow> d < b"
proof (induction b n rule: digits.induct)
  case (1 b n)
  show ?case
  proof (cases "n = 0")
    case True
    with 1(3) show ?thesis by simp
  next
    case False
    with 1 show ?thesis by (auto simp: digits_step)
  qed
qed

lemma from_digits_eq_0: "0 < b \<Longrightarrow> from_digits b ds = 0 \<longleftrightarrow> set ds \<subseteq> {0}"
  by (induction ds rule: rev_induct) auto

lemma digits_from_digits:
  "2 \<le> b \<Longrightarrow> \<forall>d\<in>set ds. d < b \<Longrightarrow> digits b (from_digits b ds) = dropWhile (\<lambda>d. d = 0) ds"
proof (induction ds rule: rev_induct)
  case Nil
  then show ?case by simp
next
  case (snoc d ds)
  let ?v = "from_digits b ds"
  have d: "d < b" and IH: "digits b ?v = dropWhile (\<lambda>d. d = 0) ds"
    using snoc by auto
  show ?case
  proof (cases "?v * b + d = 0")
    case True
    then have v0: "?v = 0" and d0: "d = 0" using snoc(2) by auto
    have "0 < b" using snoc(2) by simp
    from from_digits_eq_0 [OF this, of ds] v0 have "set ds \<subseteq> {0}" by blast
    with d0 have "dropWhile (\<lambda>d. d = 0) (ds @ [d]) = []"
      unfolding dropWhile_eq_Nil_conv by auto
    then show ?thesis by (simp add: v0 d0)
  next
    case False
    then have "digits b (?v * b + d) = digits b ?v @ [d]"
      using snoc(2) d by (simp add: digits_step)
    also have "\<dots> = dropWhile (\<lambda>d. d = 0) (ds @ [d])"
    proof (cases "set ds \<subseteq> {0}")
      case True
      have "0 < b" using snoc(2) by simp
      from from_digits_eq_0 [OF this, of ds] True have v0: "?v = 0" by blast
      with False have "d \<noteq> 0" by simp
      moreover have "dropWhile (\<lambda>d. d = 0) ds = []"
        unfolding dropWhile_eq_Nil_conv using True by auto
      moreover have "dropWhile (\<lambda>d. d = 0) (ds @ [d]) = dropWhile (\<lambda>d. d = 0) [d]"
        using True by (intro dropWhile_append2) auto
      ultimately show ?thesis using v0 by simp
    next
      case False
      then obtain x where "x \<in> set ds" "x \<noteq> 0" by auto
      then have "dropWhile (\<lambda>d. d = 0) (ds @ [d]) = dropWhile (\<lambda>d. d = 0) ds @ [d]"
        by (intro dropWhile_append1) auto
      then show ?thesis by (simp add: IH)
    qed
    finally show ?thesis by simp
  qed
qed

lemma length_digits_le: "2 \<le> b \<Longrightarrow> length (digits b n) \<le> k \<longleftrightarrow> n < b ^ k"
proof (induction b n arbitrary: k rule: digits.induct)
  case (1 b n)
  show ?case
  proof (cases "n = 0")
    case True
    then show ?thesis using 1(2) by simp
  next
    case False
    then have step: "length (digits b n) = Suc (length (digits b (n div b)))"
      using 1(2) by (simp add: digits_step)
    show ?thesis
    proof (cases k)
      case 0
      with False step show ?thesis by simp
    next
      case (Suc j)
      have "length (digits b (n div b)) \<le> j \<longleftrightarrow> n div b < b ^ j"
        using 1 False by simp
      also have "\<dots> \<longleftrightarrow> n < b ^ j * b"
        using 1(2) by (simp add: less_mult_imp_div_less div_less_iff_less_mult)
      finally show ?thesis using Suc step by (simp add: mult.commute)
    qed
  qed
qed

lemma length_digits_eq: "2 \<le> b \<Longrightarrow> length (digits b n) = Suc k \<longleftrightarrow> b ^ k \<le> n \<and> n < b ^ Suc k"
  using length_digits_le [of b n k] length_digits_le [of b n "Suc k"] by auto

lemma hd_digits: "2 \<le> b \<Longrightarrow> 0 < n \<Longrightarrow> digits b n \<noteq> [] \<and> hd (digits b n) \<noteq> 0"
proof (induction b n rule: digits.induct)
  case (1 b n)
  show ?case
  proof (cases "n div b = 0")
    case True
    then have "n < b" using 1(2) by (simp add: div_eq_0_iff)
    with True 1 show ?thesis by (simp add: digits_step)
  next
    case False
    with 1 have "digits b (n div b) \<noteq> [] \<and> hd (digits b (n div b)) \<noteq> 0" by simp
    with 1 show ?thesis by (simp add: digits_step)
  qed
qed

section \<open>Bytes and characters\<close>

lemma unat_of_char: "unat (of_char c :: byte) = of_char c"
proof -
  have "(of_char c :: byte) = of_nat (of_char c)" by (simp add: of_nat_of_char)
  moreover have "(of_char c :: nat) < 256" by simp
  ultimately show ?thesis by (simp add: unat_of_nat)
qed

lemma string_of_bytes_of_string [simp]: "string_of_bytes (bytes_of_string s) = s"
  by (induction s) (simp_all add: string_of_bytes_def bytes_of_string_def unat_of_char)

lemma of_char_char_of_unat: "(of_char (char_of (unat x)) :: byte) = x"
proof -
  have a: "(of_char (char_of (unat x)) :: nat) = unat x"
    using unsigned_less [of x, where ?'a = nat] by simp
  have "(of_char (char_of (unat x)) :: byte) = of_nat (of_char (char_of (unat x)) :: nat)"
    by (simp only: of_nat_of_char)
  then show ?thesis by (simp only: a of_nat_unat ucast_id)
qed

lemma bytes_of_string_of_bytes [simp]: "bytes_of_string (string_of_bytes b) = b"
  by (induction b) (simp_all add: string_of_bytes_def bytes_of_string_def of_char_char_of_unat)

lemma length_bytes_of_string [simp]: "length (bytes_of_string s) = length s"
  by (simp add: bytes_of_string_def)

lemma length_string_of_bytes [simp]: "length (string_of_bytes b) = length b"
  by (simp add: string_of_bytes_def)

lemma bytes_of_string_append:
  "bytes_of_string (s @ t) = bytes_of_string s @ bytes_of_string t"
  by (simp add: bytes_of_string_def)

lemma of_char_byte_eq_iff: "(of_char c :: byte) = of_char d \<longleftrightarrow> c = d"
proof
  assume "(of_char c :: byte) = of_char d"
  then have "unat (of_char c :: byte) = unat (of_char d :: byte)" by simp
  then show "c = d" by (simp add: unat_of_char)
qed simp

lemma separatorBytes_eq: "separatorBytes = [of_char (CHR ''-'')]"
  by (simp add: separatorBytes_def separator_def bytes_of_string_def)

section \<open>Searching\<close>

lemma HasPrefix_single: "HasPrefix (x # t) [c] \<longleftrightarrow> x = c"
  by (simp add: HasPrefix_def)

lemma Index_single:
  "Index s [c] = (if c \<in> set s then Some (length (takeWhile (\<lambda>x. x \<noteq> c) s)) else None)"
  by (induction s) (auto simp: HasPrefix_single)

lemma Index_single_None: "Index s [c] = None \<longleftrightarrow> c \<notin> set s"
  by (simp add: Index_single)

lemma Index_single_append:
  "c \<notin> set p \<Longrightarrow> Index (p @ c # t) [c] = Some (length p)"
  by (induction p) (auto simp: HasPrefix_single)

lemma Contains_single: "Contains s [c] \<longleftrightarrow> c \<in> set s"
  by (simp add: Contains_def Index_single)

lemma TrimSuffix_snoc: "TrimSuffix (p @ [c]) [c] = p"
  by (simp add: TrimSuffix_def HasSuffix_def)

lemma TrimSuffix_Nil: "TrimSuffix [] [c] = []"
  by (simp add: TrimSuffix_def HasSuffix_def)

lemma Index_nth: "distinct s \<Longrightarrow> i < length s \<Longrightarrow> Index s [s ! i] = Some i"
proof (induction s arbitrary: i)
  case Nil
  then show ?case by simp
next
  case (Cons x s)
  show ?case
  proof (cases i)
    case 0
    then show ?thesis by (simp add: HasPrefix_single)
  next
    case (Suc j)
    with Cons.prems have "s ! j \<noteq> x" by auto
    with Cons Suc show ?thesis by (simp add: HasPrefix_single)
  qed
qed

lemma Index_single_Some: "Index s [c] = Some i \<Longrightarrow> i < length s \<and> s ! i = c"
proof (induction s arbitrary: i)
  case Nil
  then show ?case by simp
next
  case (Cons x s)
  then show ?case by (cases "x = c") (auto simp: HasPrefix_single)
qed

section \<open>Prefix validation\<close>

lemma validatePrefix_True:
  "validatePrefix p True = None \<longleftrightarrow>
     CHR ''-'' \<notin> set p \<and> CHR '' '' \<notin> set p \<and> (p = [] \<or> length p = 3)"
  by (auto simp: validatePrefix_def separator_def Contains_single prefixAllowedLen_def)

lemma validatePrefix_False_sep:
  "validatePrefix p True = None \<Longrightarrow> validatePrefix (p @ separator) False = None"
  by (auto simp: validatePrefix_def separator_def Contains_single prefixAllowedLen_def
      TrimSuffix_snoc)

lemma validatePrefix_False_Nil: "validatePrefix [] False = None"
  by (simp add: validatePrefix_def separator_def Contains_def TrimSuffix_Nil)

section \<open>Generation\<close>

lemma getRandomBytes_Some:
  "getRandomBytes (Some r) = Returns (take 12 r @ replicate (12 - length r) 0)"
  by (simp add: getRandomBytes_def copy_slice_def randomBytesLen_def min_def)

lemma length_ts_bytes [simp]: "length (ts_bytes ts) = 7"
  by (simp add: ts_bytes_def)

lemma ts_bytes_list:
  "ts_bytes ts = [ucast (drop_bit 56 ts), ucast (drop_bit 48 ts), ucast (drop_bit 40 ts),
     ucast (drop_bit 32 ts), ucast (drop_bit 24 ts), ucast (drop_bit 16 ts),
     ucast (drop_bit 8 ts)]"
  by (simp add: ts_bytes_def upt_rec numeral_eq_Suc)

text \<open>\<^verbatim>\<open>newID\<close> in closed form: prefix and separator, the seven timestamp bytes, the
  twelve bytes of the random buffer.\<close>

lemma newID_Nil:
  "newID [] elapsed (Some r) =
     Returns (Inr (ts_bytes (shifted_ts (ticks elapsed))
                   @ take 12 r @ replicate (12 - length r) 0))"
proof -
  have v: "validatePrefix [] True = None" by (simp add: validatePrefix_True)
  have rep: "replicate 19 (0 :: byte) = [0,0,0,0,0,0,0,0,0,0,0,0,0,0,0,0,0,0,0]"
    by (simp add: numeral_eq_Suc)
  have l: "min 12 (length (take 12 r @ replicate (12 - length r) (0 :: byte))) = 12"
    by simp
  show ?thesis
    by (simp add: newID_def v getRandomBytes_Some Let_def byteLength_def timeBytesLen_def
        randomBytesLen_def rep ts_bytes_list copy_slice_def bytes_of_string_def l
       )
qed

lemma newID_prefix:
  assumes "validatePrefix p True = None" and "p \<noteq> []"
  shows "newID p elapsed (Some r) =
     Returns (Inr (bytes_of_string (p @ separator) @ ts_bytes (shifted_ts (ticks elapsed))
                   @ take 12 r @ replicate (12 - length r) 0))"
proof -
  from assms have "length p = 3" by (auto simp: validatePrefix_True)
  then obtain a b c where p: "p = [a, b, c]"
    by (auto simp: length_Suc_conv numeral_3_eq_3)
  have rep: "replicate 23 (0 :: byte) = [0,0,0,0,0,0,0,0,0,0,0,0,0,0,0,0,0,0,0,0,0,0,0]"
    "replicate 19 (0 :: byte) = [0,0,0,0,0,0,0,0,0,0,0,0,0,0,0,0,0,0,0]"
    by (simp_all add: numeral_eq_Suc)
  have l: "min 12 (length (take 12 r @ replicate (12 - length r) (0 :: byte))) = 12"
    "12 - min (length r) 12 = 12 - length r"
    by simp_all
  show ?thesis
    using assms(1) unfolding p
    by (simp add: newID_def getRandomBytes_Some Let_def byteLength_def timeBytesLen_def
        randomBytesLen_def prefixAllowedLen_def separator_def rep ts_bytes_list
        copy_slice_def bytes_of_string_def l)
qed

lemma newID_None: "validatePrefix p True = None \<Longrightarrow> newID p elapsed None = Panics"
  by (simp add: newID_def getRandomBytes_def Let_def split: prod.splits)

lemma newID_invalid: "validatePrefix p True = Some e \<Longrightarrow> newID p elapsed entropy = Returns (Inl e)"
  by (simp add: newID_def)

section \<open>The base-58 codec\<close>

lemma distinct_alphabets: "distinct alphabets"
  by (simp add: alphabets_def)

lemma length_alphabets [simp]: "length alphabets = 58"
  by (simp add: alphabets_def)

lemma alphabets_0: "alphabets ! 0 = CHR ''1''"
  by (simp add: alphabets_def)

lemma b58_digit_nth: "d < 58 \<Longrightarrow> b58_digit (alphabets ! d) = Some d"
  by (simp add: b58_digit_def Index_nth distinct_alphabets)

lemma b58_digit_Some: "b58_digit c = Some d \<Longrightarrow> d < 58 \<and> alphabets ! d = c"
  using Index_single_Some [of alphabets c d] by (simp add: b58_digit_def)

lemma b58_digit_None: "b58_digit c = None \<longleftrightarrow> c \<notin> set alphabets"
  by (simp add: b58_digit_def Index_single_None)

lemma nth_alphabets_neq_0: "0 < d \<Longrightarrow> d < 58 \<Longrightarrow> alphabets ! d \<noteq> alphabets ! 0"
  using distinct_alphabets by (simp add: nth_eq_iff_index_eq)

lemma decode_digits_map:
  "\<forall>d\<in>set ds. d < 58 \<Longrightarrow> decode_digits (map (\<lambda>d. alphabets ! d) ds) = Some ds"
  by (induction ds) (simp_all add: b58_digit_nth)

lemma decode_digits_None: "decode_digits s = None \<longleftrightarrow> \<not> set s \<subseteq> set alphabets"
proof (induction s)
  case Nil
  then show ?case by simp
next
  case (Cons c s)
  show ?case
  proof (cases "b58_digit c")
    case None
    then have "c \<notin> set alphabets" by (simp add: b58_digit_None)
    with None show ?thesis by simp
  next
    case (Some d)
    then have "c \<in> set alphabets" using b58_digit_None [of c] by auto
    with Some Cons show ?thesis by simp
  qed
qed

lemma decode_digits_Some:
  "decode_digits s = Some ds \<Longrightarrow>
     length ds = length s \<and> (\<forall>d\<in>set ds. d < 58) \<and> s = map (\<lambda>d. alphabets ! d) ds"
proof (induction s arbitrary: ds)
  case Nil
  then show ?case by simp
next
  case (Cons c s)
  from Cons.prems obtain d where d: "b58_digit c = Some d"
    by (cases "b58_digit c") simp_all
  with Cons.prems obtain ds' where ds': "decode_digits s = Some ds'" and ds: "ds = d # ds'"
    by (cases "decode_digits s") auto
  from Cons.IH [OF ds'] have l: "length ds' = length s"
    and b: "\<forall>x\<in>set ds'. x < 58" and m: "s = map (\<lambda>d. alphabets ! d) ds'"
    by blast+
  from b58_digit_Some [OF d] have dl: "d < 58" and dc: "alphabets ! d = c"
    by blast+
  show ?case
  proof (intro conjI)
    show "length ds = length (c # s)" unfolding ds using l by simp
    show "\<forall>x\<in>set ds. x < 58" unfolding ds using b dl by simp
    show "c # s = map (\<lambda>d. alphabets ! d) ds" unfolding ds using m dc by simp
  qed
qed

lemma from_digits_Cons_0 [simp]: "from_digits b (0 # ds) = from_digits b ds"
  by (simp add: from_digits_def)

lemma from_digits_replicate_0 [simp]: "from_digits b (replicate z 0 @ ds) = from_digits b ds"
  by (induction z) simp_all

lemma takeWhile_replicate_append:
  "(ys = [] \<or> \<not> P (hd ys)) \<Longrightarrow> P x \<Longrightarrow> takeWhile P (replicate z x @ ys) = replicate z x"
  by (induction z) (auto simp: takeWhile_eq_Nil_iff)

lemma replicate_takeWhile_eq: "replicate (length (takeWhile (\<lambda>x. x = a) xs)) a = takeWhile (\<lambda>x. x = a) xs"
  by (induction xs) auto

lemma map_of_nat_unat [simp]: "map (of_nat \<circ> unat) (bs :: byte list) = bs"
  by (induction bs) simp_all

lemma dropWhile_map_unat:
  "dropWhile (\<lambda>d. d = 0) (map unat (bs :: byte list)) = map unat (dropWhile (\<lambda>x. x = 0) bs)"
  by (induction bs) (auto simp: unat_eq_0)

lemma unat_byte_less: "\<forall>d\<in>set (map unat (bs :: byte list)). d < 256"
proof
  fix d assume "d \<in> set (map unat bs)"
  then obtain x :: byte where "d = unat x" by auto
  then show "d < 256" using unsigned_less [of x, where ?'a = nat] by simp
qed

lemma EncodeAlphabet_eq:
  "EncodeAlphabet bin =
     replicate (length (takeWhile (\<lambda>x. x = 0) bin)) (CHR ''1'')
     @ map (\<lambda>d. alphabets ! d) (digits 58 (from_digits 256 (map unat bin)))"
  by (simp add: EncodeAlphabet_def alphabets_0)

lemma length_EncodeAlphabet:
  "length (EncodeAlphabet bin) =
     length (takeWhile (\<lambda>x. x = 0) bin) + length (digits 58 (from_digits 256 (map unat bin)))"
  by (simp add: EncodeAlphabet_eq)

lemma set_EncodeAlphabet: "set (EncodeAlphabet bin) \<subseteq> set alphabets"
proof -
  have "alphabets ! d \<in> set alphabets" if "d \<in> set (digits 58 n)" for d n
    using digits_less [of 58 d n] that by simp
  moreover have "CHR ''1'' \<in> set alphabets" by (simp add: alphabets_def)
  ultimately show ?thesis by (auto simp: EncodeAlphabet_eq)
qed

lemma separator_notin_alphabets: "CHR ''-'' \<notin> set alphabets"
  by (simp add: alphabets_def)

lemma separator_notin_EncodeAlphabet: "CHR ''-'' \<notin> set (EncodeAlphabet bin)"
  using set_EncodeAlphabet [of bin] separator_notin_alphabets by blast

lemma decode_digits_EncodeAlphabet:
  "decode_digits (EncodeAlphabet bin) =
     Some (replicate (length (takeWhile (\<lambda>x. x = 0) bin)) 0
           @ digits 58 (from_digits 256 (map unat bin)))"
proof -
  let ?z = "length (takeWhile (\<lambda>x. x = 0) bin)"
  let ?ds = "digits 58 (from_digits 256 (map unat bin))"
  have "EncodeAlphabet bin = map (\<lambda>d. alphabets ! d) (replicate ?z 0 @ ?ds)"
    by (simp add: EncodeAlphabet_eq alphabets_0)
  moreover have "\<forall>d\<in>set (replicate ?z 0 @ ?ds). d < 58"
    using digits_less [of 58] by auto
  ultimately show ?thesis by (simp only: decode_digits_map)
qed

lemma zcount_EncodeAlphabet:
  "length (takeWhile (\<lambda>c. c = alphabets ! 0) (EncodeAlphabet bin))
     = length (takeWhile (\<lambda>x. x = 0) bin)"
proof -
  let ?ds = "digits 58 (from_digits 256 (map unat bin))"
  let ?ys = "map (\<lambda>d. alphabets ! d) ?ds"
  have "?ys = [] \<or> hd ?ys \<noteq> alphabets ! 0"
  proof (cases "from_digits 256 (map unat bin) = 0")
    case True
    then show ?thesis by simp
  next
    case False
    then have ne: "?ds \<noteq> []" and hd: "hd ?ds \<noteq> 0"
      using hd_digits [of 58 "from_digits 256 (map unat bin)"] by simp_all
    from ne have "hd ?ds \<in> set ?ds" by simp
    then have "hd ?ds < 58" using digits_less [of 58] by simp
    with hd have "alphabets ! hd ?ds \<noteq> alphabets ! 0"
      by (simp add: nth_alphabets_neq_0)
    with ne show ?thesis by (simp add: hd_map)
  qed
  then have "takeWhile (\<lambda>c. c = alphabets ! 0)
               (replicate (length (takeWhile (\<lambda>x. x = 0) bin)) (alphabets ! 0) @ ?ys)
             = replicate (length (takeWhile (\<lambda>x. x = 0) bin)) (alphabets ! 0)"
    by (intro takeWhile_replicate_append) auto
  then show ?thesis by (simp add: EncodeAlphabet_def)
qed

lemma EncodeAlphabet_Nil_iff: "EncodeAlphabet bin = [] \<longleftrightarrow> bin = []"
proof
  assume e: "EncodeAlphabet bin = []"
  show "bin = []"
  proof (rule ccontr)
    assume "bin \<noteq> []"
    then obtain x xs where bin: "bin = x # xs" by (cases bin) auto
    from e have z: "takeWhile (\<lambda>x. x = 0) bin = []"
      and d: "digits 58 (from_digits 256 (map unat bin)) = []"
      by (simp_all add: EncodeAlphabet_eq)
    from z bin have "x \<noteq> 0" by (auto split: if_splits)
    from d have "from_digits 256 (map unat bin) = 0"
      using from_digits_digits [of 58 "from_digits 256 (map unat bin)"] by simp
    then have "set (map unat bin) \<subseteq> {0}" by (simp add: from_digits_eq_0)
    with bin have "unat x = 0" by simp
    with \<open>x \<noteq> 0\<close> show False by (simp add: unat_eq_0)
  qed
qed (simp add: EncodeAlphabet_eq digits.simps)

lemma DecodeAlphabet_EncodeAlphabet:
  "bin \<noteq> [] \<Longrightarrow> DecodeAlphabet (EncodeAlphabet bin) = Some bin"
proof -
  assume ne: "bin \<noteq> []"
  let ?v = "from_digits 256 (map unat bin)"
  have "digits 256 (from_digits 58 (replicate (length (takeWhile (\<lambda>x. x = 0) bin)) 0
          @ digits 58 ?v)) = digits 256 ?v"
    by (simp add: from_digits_digits)
  also have "\<dots> = map unat (dropWhile (\<lambda>x. x = 0) bin)"
    using unat_byte_less [of bin] by (simp add: digits_from_digits dropWhile_map_unat)
  finally have "map of_nat (digits 256 (from_digits 58
      (replicate (length (takeWhile (\<lambda>x. x = 0) bin)) 0 @ digits 58 ?v)))
      = dropWhile (\<lambda>x. x = 0) bin"
    by simp
  then show ?thesis
    using ne
    by (simp add: DecodeAlphabet_def EncodeAlphabet_Nil_iff decode_digits_EncodeAlphabet
        zcount_EncodeAlphabet replicate_takeWhile_eq)
qed

section \<open>Text form and parsing\<close>

lemma FromBytes_eq:
  "FromBytes bs = (if length bs < byteLength then Inl errBytesSizeMismatch else Inr bs)"
  by (simp add: FromBytes_def copy_slice_def Let_def)

lemma ID_String_short: "length t \<le> byteLength \<Longrightarrow> ID_String t = Returns (EncodeAlphabet t)"
  by (simp add: ID_String_def)

lemma of_char_eq_separator: "(of_char x :: byte) = 45 \<longleftrightarrow> x = CHR ''-''"
  using of_char_byte_eq_iff [of x "CHR ''-''"] by simp

lemma Index_separatorBytes:
  "CHR ''-'' \<notin> set p \<Longrightarrow>
     Index (bytes_of_string (p @ separator) @ bs) separatorBytes = Some (length p)"
proof -
  assume "CHR ''-'' \<notin> set p"
  then have "(of_char (CHR ''-'') :: byte) \<notin> set (map of_char p)"
    by (auto simp: of_char_eq_separator)
  from Index_single_append [OF this, of bs]
  show ?thesis by (simp add: separatorBytes_eq separator_def bytes_of_string_def)
qed

lemma ID_String_prefixed:
  assumes "CHR ''-'' \<notin> set p" and "byteLength < length p + 1 + length bs"
  shows "ID_String (bytes_of_string (p @ separator) @ bs)
           = Returns (p @ separator @ EncodeAlphabet bs)"
proof -
  have "length (bytes_of_string (p @ separator) @ bs) = length p + 1 + length bs"
    by (simp add: separator_def)
  moreover have "take (Suc (length p)) (bytes_of_string (p @ separator) @ bs)
      = bytes_of_string (p @ separator)"
    by (simp add: separator_def)
  moreover have "drop (Suc (length p)) (bytes_of_string (p @ separator) @ bs) = bs"
    by (simp add: separator_def)
  ultimately show ?thesis
    using assms
    by (simp add: ID_String_def Index_separatorBytes bytes_of_string_append [symmetric]
        del: append_assoc)
qed

lemma Index_separator_text:
  "CHR ''-'' \<notin> set p \<Longrightarrow> Index (p @ separator @ s) separator = Some (length p)"
  using Index_single_append [of "CHR ''-''" p s] by (simp add: separator_def)

lemma Index_separator_None: "Index s separator = None \<longleftrightarrow> CHR ''-'' \<notin> set s"
  by (simp add: separator_def Index_single_None)

lemma parseInternal_eq:
  "parseInternal prefix text =
     (if length text < 25 then Inl errStringSizeMismatch
      else case validatePrefix prefix False of
        Some err \<Rightarrow> Inl err
      | None \<Rightarrow>
          (case DecodeAlphabet text of
             None \<Rightarrow> Inl ErrInvalidBase58
           | Some bs \<Rightarrow>
               if length prefix + length bs < 19 then Inl errBytesSizeMismatch
               else Inr (bytes_of_string prefix @ bs)))"
  by (simp add: parseInternal_def FromBytes_eq stringEncodedLen_def byteLength_def
      timeBytesLen_def randomBytesLen_def split: option.splits)

lemma Parse_prefixed:
  assumes "validatePrefix p True = None" and "bs \<noteq> []"
  shows "Parse (p @ separator @ EncodeAlphabet bs) =
     (if length (EncodeAlphabet bs) < 25 then Inl errStringSizeMismatch
      else if length p + 1 + length bs < 19 then Inl errBytesSizeMismatch
      else Inr (bytes_of_string (p @ separator) @ bs))"
proof -
  from assms(1) have sep: "CHR ''-'' \<notin> set p" by (simp add: validatePrefix_True)
  have t: "take (length p + 1) (p @ separator @ EncodeAlphabet bs) = p @ separator"
    and d: "drop (length p + 1) (p @ separator @ EncodeAlphabet bs) = EncodeAlphabet bs"
    by (simp_all add: separator_def)
  have l: "length separator = 1" by (simp add: separator_def)
  have "Parse (p @ separator @ EncodeAlphabet bs)
      = parseInternal (p @ separator) (EncodeAlphabet bs)"
    unfolding Parse_def by (simp only: Index_separator_text [OF sep] option.case t d)
  then show ?thesis
    by (simp add: parseInternal_eq validatePrefix_False_sep [OF assms(1)]
        DecodeAlphabet_EncodeAlphabet [OF assms(2)] l)
qed

lemma Parse_unprefixed:
  assumes "bs \<noteq> []"
  shows "Parse (EncodeAlphabet bs) =
     (if length (EncodeAlphabet bs) < 25 then Inl errStringSizeMismatch
      else if length bs < 19 then Inl errBytesSizeMismatch
      else Inr bs)"
proof -
  have "Index (EncodeAlphabet bs) separator = None"
    by (simp add: Index_separator_None separator_notin_EncodeAlphabet)
  then show ?thesis
    by (simp add: Parse_def parseInternal_eq validatePrefix_False_Nil
        DecodeAlphabet_EncodeAlphabet [OF assms] stringEncodedLen_def bytes_of_string_def)
qed

section \<open>What generation returns\<close>

lemma New_Returns_Inr:
  assumes "New p elapsed entropy = Returns (Inr t)"
  shows "validatePrefix p True = None \<and>
     (\<exists>r. entropy = Some r \<and>
        t = (if p = [] then [] else bytes_of_string (p @ separator))
            @ ts_bytes (shifted_ts (ticks elapsed)) @ take 12 r @ replicate (12 - length r) 0)"
proof -
  have v: "validatePrefix p True = None"
  proof (cases "validatePrefix p True")
    case (Some e)
    with assms show ?thesis by (simp add: New_def newID_invalid)
  qed simp
  obtain r where r: "entropy = Some r"
    using assms v by (cases entropy) (simp_all add: New_def newID_None)
  show ?thesis
  proof (cases "p = []")
    case True
    with assms r v show ?thesis by (simp add: New_def newID_Nil)
  next
    case False
    with assms r v show ?thesis by (simp add: New_def newID_prefix)
  qed
qed

lemma length_rnd [simp]: "length (take 12 r @ replicate (12 - length r) x) = 12"
  by simp

lemma payload_generated:
  "payload ((if p = [] then [] else bytes_of_string (p @ separator))
            @ ts_bytes ts @ take 12 r @ replicate (12 - length r) 0)
   = ts_bytes ts @ take 12 r @ replicate (12 - length r) 0"
  by (simp add: payload_def byteLength_def timeBytesLen_def randomBytesLen_def separator_def)

section \<open>Scanning\<close>

lemma ID_UnmarshalBinary_eq:
  "ID_UnmarshalBinary t b =
     (if length b < byteLength then (Some errBytesSizeMismatch, []) else (None, b))"
  by (simp add: ID_UnmarshalBinary_def FromBytes_eq)


lemma ID_String_Panics:
  "byteLength < length t \<Longrightarrow> 45 \<notin> set t \<Longrightarrow> ID_String t = Panics"
  by (simp add: ID_String_def separatorBytes_eq Index_single)

lemma validatePrefix_not_size:
  "validatePrefix p b \<noteq> Some errStringSizeMismatch"
  by (simp add: validatePrefix_def Let_def)

lemma parseInternal_size:
  "parseInternal p text = Inl errStringSizeMismatch \<longleftrightarrow> length text < 25"
  using validatePrefix_not_size [of p False]
  by (auto simp: parseInternal_eq split: option.splits)

lemma DecodeAlphabet_None:
  "str \<noteq> [] \<Longrightarrow> DecodeAlphabet str = None \<longleftrightarrow> \<not> set str \<subseteq> set alphabets"
  using decode_digits_None [of str]
  by (auto simp: DecodeAlphabet_def Let_def split: option.splits)

text \<open>\<^bold>\<open>C5\<close>, as the code has it. \<^verbatim>\<open>Scan\<close> turns a nil, a byte slice, a buffer or a
  string into bytes and dispatches on their number alone: no bytes is a success that
  leaves the receiver alone; 19 or 22 bytes go to the binary path, which cannot fail at
  these lengths and stores the bytes; 25 or 28 bytes go to the text path; every other
  length is the error \<^verbatim>\<open>errBytesSizeMismatch\<close>, the receiver unchanged.\<close>

theorem C5_scan_dispatch:
  "ID_Scan t SrcNil = ID_scan t []
   \<and> ID_Scan t (SrcBytes b) = ID_scan t b
   \<and> ID_Scan t (SrcBuffer b) = ID_scan t b
   \<and> ID_Scan t (SrcBufferPtr b) = ID_scan t b
   \<and> ID_Scan t (SrcString s) = ID_scan t (bytes_of_string s)
   \<and> (length b = 0 \<longrightarrow> ID_scan t b = (None, t))
   \<and> (length b = 19 \<or> length b = 22 \<longrightarrow>
        ID_scan t b = ID_UnmarshalBinary t b \<and> ID_UnmarshalBinary t b = (None, b))
   \<and> (length b = 25 \<or> length b = 28 \<longrightarrow> ID_scan t b = ID_UnmarshalText t b)
   \<and> (length b \<notin> {0, 19, 22, 25, 28} \<longrightarrow> ID_scan t b = (Some errBytesSizeMismatch, t))"
  by (auto simp: ID_scan_def ID_UnmarshalBinary_eq byteLength_def timeBytesLen_def
      randomBytesLen_def prefixAllowedLen_def stringEncodedLen_def)

theorem C5_scan_dispatch_witness:
  "ID_scan [1] [] = (None, [1])
   \<and> ID_scan [1] (replicate 19 7) = (None, replicate 19 7)
   \<and> ID_scan [1] (replicate 25 7) = ID_UnmarshalText [1] (replicate 25 7)
   \<and> ID_scan [1] (replicate 23 7) = (Some errBytesSizeMismatch, [1])"
  using C5_scan_dispatch [of "[1]" "[]"] C5_scan_dispatch [of "[1]" "replicate 19 7"]
    C5_scan_dispatch [of "[1]" "replicate 25 7"] C5_scan_dispatch [of "[1]" "replicate 23 7"]
  by simp

theorem C5_counterexample:
  "length ([] :: byte list) \<notin> {19, 22, 25, 28} \<and> ID_Scan [1] (SrcBytes []) = (None, [1])
   \<and> ID_Scan [1] SrcNil = (None, [1])"
  by (simp add: ID_scan_def)



text \<open>\<^bold>\<open>C10\<close>. \<^verbatim>\<open>Parse\<close> accepts a text of more than 25 characters with no separator;
  for the 27 characters \<open>zzz\<dots>z\<close> it returns 20 bytes, none of them the separator byte,
  and \<^verbatim>\<open>String\<close> panics on that identifier.\<close>

lemma Parse_27z:
  "Parse ''zzzzzzzzzzzzzzzzzzzzzzzzzzz'' =
     Inr [71, 199, 98, 152, 217, 17, 164, 37, 209, 195, 61, 193, 208, 74, 197, 245, 39,
          255, 255, 255]"
  by (simp add: Parse_def separator_def HasPrefix_def parseInternal_eq validatePrefix_False_Nil
      DecodeAlphabet_def b58_digit_def alphabets_def from_digits_def digits.simps
      bytes_of_string_def stringEncodedLen_def)

theorem C10_parse_then_string_panics:
  "\<exists>text t. Index text separator = None \<and> 25 < length text \<and> Parse text = Inr t
     \<and> byteLength < length t \<and> 45 \<notin> set t \<and> ID_String t = Panics"
proof (intro exI conjI)
  let ?t = "[71, 199, 98, 152, 217, 17, 164, 37, 209, 195, 61, 193, 208, 74, 197, 245, 39,
          255, 255, 255] :: byte list"
  show "Parse ''zzzzzzzzzzzzzzzzzzzzzzzzzzz'' = Inr ?t" by (rule Parse_27z)
  show "Index ''zzzzzzzzzzzzzzzzzzzzzzzzzzz'' separator = None"
    unfolding Index_separator_None by simp
  show "25 < length ''zzzzzzzzzzzzzzzzzzzzzzzzzzz''" by simp
  show l: "byteLength < length ?t" by (simp add: byteLength_def timeBytesLen_def randomBytesLen_def)
  show s: "45 \<notin> set ?t" by simp
  from l s show "ID_String ?t = Panics" by (rule ID_String_Panics)
qed

section \<open>Length checks of Parse and FromBytes\<close>

lemma Parse_None:
  "Index str separator = None \<Longrightarrow>
     Parse str = (if 25 \<le> length str then parseInternal [] str else Inl errStringSizeMismatch)"
  by (simp add: Parse_def stringEncodedLen_def)

lemma Parse_size:
  "Parse str = Inl errStringSizeMismatch \<longleftrightarrow> length (payload_text str) < 25"
proof (cases "Index str separator")
  case None
  then show ?thesis
    by (simp add: Parse_None payload_text_def parseInternal_size)
next
  case (Some i)
  then show ?thesis
    by (simp add: Parse_def payload_text_def parseInternal_size)
qed

text \<open>\<^bold>\<open>C6\<close>, as the code has it. A text of 24 characters with no separator fails with
  \<^verbatim>\<open>errStringSizeMismatch\<close>. A text of 25 characters with no separator never fails with
  that error, but it succeeds only if it decodes: a character outside the alphabet gives
  the invalid-base58 error, and a decoding of fewer than 19 bytes gives
  \<^verbatim>\<open>errBytesSizeMismatch\<close>. In general \<^verbatim>\<open>Parse\<close> returns \<^verbatim>\<open>errStringSizeMismatch\<close> exactly
  when the encoded payload text has fewer than 25 characters.\<close>

theorem C6_parse_size_mismatch:
  "(Index str separator = None \<and> length str = 24 \<longrightarrow> Parse str = Inl errStringSizeMismatch)
   \<and> (Index str separator = None \<and> length str = 25 \<longrightarrow>
         Parse str \<noteq> Inl errStringSizeMismatch
         \<and> Parse str =
             (case DecodeAlphabet str of
                None \<Rightarrow> Inl ErrInvalidBase58
              | Some bs \<Rightarrow> if length bs < 19 then Inl errBytesSizeMismatch else Inr bs)
         \<and> (DecodeAlphabet str = None \<longleftrightarrow> \<not> set str \<subseteq> set alphabets))
   \<and> (Parse str = Inl errStringSizeMismatch \<longleftrightarrow> length (payload_text str) < 25)"
proof (intro conjI impI)
  assume "Index str separator = None \<and> length str = 24"
  then show "Parse str = Inl errStringSizeMismatch" by (simp add: Parse_None)
next
  assume a: "Index str separator = None \<and> length str = 25"
  then show "Parse str \<noteq> Inl errStringSizeMismatch"
    by (simp add: Parse_size payload_text_def)
  from a show "Parse str =
      (case DecodeAlphabet str of
         None \<Rightarrow> Inl ErrInvalidBase58
       | Some bs \<Rightarrow> if length bs < 19 then Inl errBytesSizeMismatch else Inr bs)"
    by (simp add: Parse_None parseInternal_eq validatePrefix_False_Nil bytes_of_string_def
        split: option.splits)
  from a have "str \<noteq> []" by auto
  then show "DecodeAlphabet str = None \<longleftrightarrow> \<not> set str \<subseteq> set alphabets"
    by (rule DecodeAlphabet_None)
next
  show "Parse str = Inl errStringSizeMismatch \<longleftrightarrow> length (payload_text str) < 25"
    by (rule Parse_size)
qed

theorem C6_parse_size_mismatch_witness:
  "Parse ''111111111111111111111111'' = Inl errStringSizeMismatch
   \<and> Parse ''1111111111111111111111111'' \<noteq> Inl errStringSizeMismatch"
proof -
  have i: "Index ''111111111111111111111111'' separator = None"
    and j: "Index ''1111111111111111111111111'' separator = None"
    unfolding Index_separator_None by simp_all
  have l: "length ''111111111111111111111111'' = 24"
    and m: "length ''1111111111111111111111111'' = 25"
    by simp_all
  from C6_parse_size_mismatch [of "''111111111111111111111111''", THEN conjunct1,
      rule_format, OF conjI [OF i l]]
  have a: "Parse ''111111111111111111111111'' = Inl errStringSizeMismatch" .
  from C6_parse_size_mismatch [of "''1111111111111111111111111''", THEN conjunct2,
      THEN conjunct1, rule_format, OF conjI [OF j m]]
  have b: "Parse ''1111111111111111111111111'' \<noteq> Inl errStringSizeMismatch" by blast
  from a b show ?thesis by (rule conjI)
qed

theorem C6_counterexample:
  "length ''0000000000000000000000000'' = 25
   \<and> Index ''0000000000000000000000000'' separator = None
   \<and> Parse ''0000000000000000000000000'' = Inl ErrInvalidBase58
   \<and> length ''2111111111111111111111111'' = 25
   \<and> Index ''2111111111111111111111111'' separator = None
   \<and> Parse ''2111111111111111111111111'' = Inl errBytesSizeMismatch"
proof -
  have i: "Index ''0000000000000000000000000'' separator = None"
    "Index ''2111111111111111111111111'' separator = None"
    unfolding Index_separator_None by simp_all
  have "DecodeAlphabet ''0000000000000000000000000'' = None"
    by (simp add: DecodeAlphabet_None alphabets_def)
  moreover have "DecodeAlphabet ''2111111111111111111111111'' =
      Some [24, 28, 23, 150, 58, 82, 38, 189, 102, 220, 28, 1, 211, 167, 225, 0, 0, 0]"
    by (simp add: DecodeAlphabet_def b58_digit_def alphabets_def HasPrefix_def from_digits_def
        digits.simps)
  ultimately show ?thesis
    using i by (simp add: Parse_None parseInternal_eq validatePrefix_False_Nil)
qed

section \<open>FromBytes and the caller's buffer\<close>

lemma FromBytes_heap_short:
  "s_len b < 19 \<Longrightarrow> snd (FromBytes_heap h b) = Inl errBytesSizeMismatch"
  by (simp add: FromBytes_heap_def make_bytes_def byteLength_def timeBytesLen_def
      randomBytesLen_def)

lemma slice_bytes_length: "slice_ok h b \<Longrightarrow> length (slice_bytes h b) = s_len b"
  by (auto simp: slice_ok_def slice_bytes_def)

lemma FromBytes_heap_ok:
  assumes "slice_ok h b" and "19 \<le> s_len b"
  shows "FromBytes_heap h b =
     (h @ [slice_bytes h b], Inr \<lparr>s_base = length h, s_off = 0, s_len = s_len b\<rparr>)"
proof -
  from assms(1) have b: "s_base b < length h" by (simp add: slice_ok_def)
  have sb: "slice_bytes (h @ [replicate (s_len b) 0]) b = slice_bytes h b"
    using b by (simp add: slice_bytes_def nth_append)
  have "copy_slice (replicate (s_len b) 0) 0 (s_len b) (slice_bytes h b) = slice_bytes h b"
    using slice_bytes_length [OF assms(1)] by (simp add: copy_slice_def)
  then show ?thesis
    using assms(2)
    by (simp add: FromBytes_heap_def make_bytes_def copy_heap_def sb byteLength_def
        timeBytesLen_def randomBytesLen_def)
qed

text \<open>\<^bold>\<open>C7\<close>. \<^verbatim>\<open>FromBytes\<close> fails, with \<^verbatim>\<open>errBytesSizeMismatch\<close>, exactly when it is given
  fewer than 19 bytes. Otherwise it returns all the bytes it was given, none cut off, in
  an array that did not exist before the call: the caller's arrays are as they were, and
  a later write through the caller's slice does not change the identifier.\<close>

theorem C7_FromBytes_copy:
  assumes "slice_ok h b"
  shows "(snd (FromBytes_heap h b) = Inl errBytesSizeMismatch \<longleftrightarrow> s_len b < 19)
    \<and> (FromBytes (slice_bytes h b) = Inl errBytesSizeMismatch \<longleftrightarrow> length (slice_bytes h b) < 19)
    \<and> (19 \<le> s_len b \<longrightarrow>
         (\<exists>h' r. FromBytes_heap h b = (h', Inr r)
            \<and> FromBytes (slice_bytes h b) = Inr (slice_bytes h' r)
            \<and> slice_bytes h' r = slice_bytes h b
            \<and> length (slice_bytes h' r) = s_len b
            \<and> s_base r = length h \<and> s_base r \<noteq> s_base b
            \<and> take (length h) h' = h
            \<and> (\<forall>i v. i < s_len b \<longrightarrow>
                  slice_bytes (store_byte h' b i v) r = slice_bytes h b)))"
proof (intro conjI impI)
  show "snd (FromBytes_heap h b) = Inl errBytesSizeMismatch \<longleftrightarrow> s_len b < 19"
  proof (cases "s_len b < 19")
    case True
    then show ?thesis by (simp add: FromBytes_heap_short)
  next
    case False
    then show ?thesis using FromBytes_heap_ok [OF assms] by simp
  qed
  show "FromBytes (slice_bytes h b) = Inl errBytesSizeMismatch \<longleftrightarrow> length (slice_bytes h b) < 19"
    by (simp add: FromBytes_eq byteLength_def timeBytesLen_def randomBytesLen_def)
next
  assume l: "19 \<le> s_len b"
  let ?r = "\<lparr>s_base = length h, s_off = 0, s_len = s_len b\<rparr>"
  let ?h = "h @ [slice_bytes h b]"
  from assms have b: "s_base b < length h" by (simp add: slice_ok_def)
  have len: "length (slice_bytes h b) = s_len b" by (rule slice_bytes_length [OF assms])
  have r: "slice_bytes ?h ?r = slice_bytes h b"
    using len by (simp add: slice_bytes_def)
  have w: "slice_bytes (store_byte ?h b i v) ?r = slice_bytes h b" for i v
    using b len by (simp add: store_byte_def slice_bytes_def list_update_append nth_append)
  have f: "FromBytes (slice_bytes h b) = Inr (slice_bytes h b)"
    using l len by (simp add: FromBytes_eq byteLength_def timeBytesLen_def randomBytesLen_def)
  show "\<exists>h' r. FromBytes_heap h b = (h', Inr r)
            \<and> FromBytes (slice_bytes h b) = Inr (slice_bytes h' r)
            \<and> slice_bytes h' r = slice_bytes h b
            \<and> length (slice_bytes h' r) = s_len b
            \<and> s_base r = length h \<and> s_base r \<noteq> s_base b
            \<and> take (length h) h' = h
            \<and> (\<forall>i v. i < s_len b \<longrightarrow>
                  slice_bytes (store_byte h' b i v) r = slice_bytes h b)"
  proof (intro exI conjI allI impI)
    show "FromBytes_heap h b = (?h, Inr ?r)" by (rule FromBytes_heap_ok [OF assms l])
    show "FromBytes (slice_bytes h b) = Inr (slice_bytes ?h ?r)" by (simp only: r f)
    show "slice_bytes ?h ?r = slice_bytes h b" by (rule r)
    show "length (slice_bytes ?h ?r) = s_len b" by (simp only: r len)
    show "s_base ?r = length h" by simp
    show "s_base ?r \<noteq> s_base b" using b by simp
    show "take (length h) ?h = h" by simp
    show "slice_bytes (store_byte ?h b i v) ?r = slice_bytes h b" for i v by (rule w)
  qed
qed

theorem C7_FromBytes_copy_witness:
  "snd (FromBytes_heap [replicate 18 1] \<lparr>s_base = 0, s_off = 0, s_len = 18\<rparr>)
     = Inl errBytesSizeMismatch
   \<and> (\<exists>h' r. FromBytes_heap [replicate 20 1] \<lparr>s_base = 0, s_off = 0, s_len = 20\<rparr> = (h', Inr r)
         \<and> slice_bytes h' r = replicate 20 1
         \<and> slice_bytes (store_byte h' \<lparr>s_base = 0, s_off = 0, s_len = 20\<rparr> 3 9) r
            = replicate 20 1)"
proof -
  have a: "slice_ok [replicate 18 1] \<lparr>s_base = 0, s_off = 0, s_len = 18\<rparr>"
    and b: "slice_ok [replicate 20 1] \<lparr>s_base = 0, s_off = 0, s_len = 20\<rparr>"
    by (simp_all add: slice_ok_def)
  have s: "slice_bytes [replicate 20 1] \<lparr>s_base = 0, s_off = 0, s_len = 20\<rparr> = replicate 20 1"
    by (simp add: slice_bytes_def)
  from C7_FromBytes_copy [OF a, THEN conjunct1]
  have x: "snd (FromBytes_heap [replicate 18 1] \<lparr>s_base = 0, s_off = 0, s_len = 18\<rparr>)
     = Inl errBytesSizeMismatch"
    by simp
  have "(19 :: nat) \<le> s_len \<lparr>s_base = 0, s_off = 0, s_len = 20\<rparr>" by simp
  from C7_FromBytes_copy [OF b, THEN conjunct2, THEN conjunct2, rule_format, OF this]
  obtain h' r where
    "FromBytes_heap [replicate 20 1] \<lparr>s_base = 0, s_off = 0, s_len = 20\<rparr> = (h', Inr r)"
    "slice_bytes h' r = replicate 20 1"
    "\<forall>i v. i < s_len \<lparr>s_base = 0, s_off = 0, s_len = 20\<rparr> \<longrightarrow>
       slice_bytes (store_byte h' \<lparr>s_base = 0, s_off = 0, s_len = 20\<rparr> i v) r
         = replicate 20 1"
    unfolding s by blast
  moreover have "(3 :: nat) < s_len \<lparr>s_base = 0, s_off = 0, s_len = 20\<rparr>" by simp
  ultimately have "\<exists>h' r.
      FromBytes_heap [replicate 20 1] \<lparr>s_base = 0, s_off = 0, s_len = 20\<rparr> = (h', Inr r)
      \<and> slice_bytes h' r = replicate 20 1
      \<and> slice_bytes (store_byte h' \<lparr>s_base = 0, s_off = 0, s_len = 20\<rparr> 3 9) r
          = replicate 20 1"
    by blast
  with x show ?thesis by (rule conjI)
qed

section \<open>The timestamp field\<close>

lemma mask_const: "(0xFFFFFFFFFFFFFF00 :: 64 word) = NOT (mask 8)"
  by (simp add: mask_eq_exp_minus_1)

lemma shifted_ts_push_bit: "shifted_ts x = push_bit 8 x"
  unfolding shifted_ts_def mask_const
  by (rule bit_word_eqI) (auto simp: bit_simps)

lemma shifted_ts_low_byte: "take_bit 8 (shifted_ts x) = 0"
  unfolding shifted_ts_push_bit by (rule bit_word_eqI) (auto simp: bit_simps)

lemma ucast_and_255: "(ucast (w AND 0xFF :: 64 word) :: byte) = ucast w"
proof -
  have "(ucast (w AND mask 8 :: 64 word) :: byte) = ucast w"
    by (rule bit_word_eqI) (auto simp: bit_simps)
  then show ?thesis by (simp add: mask_eq_exp_minus_1)
qed

lemma ucast_take_bit_8: "(ucast (w :: 64 word) :: byte) = ucast (take_bit 8 w)"
  by (rule bit_word_eqI) (auto simp: bit_simps)

lemma unat_ucast_drop_bit: "unat (ucast (drop_bit k (w :: 64 word)) :: byte) = unat w div 2 ^ k mod 256"
  by (simp only: unsigned_ucast_eq unat_drop_bit_eq) (simp add: take_bit_eq_mod drop_bit_eq_div)

lemma drop_bit_shifted_ts: "drop_bit 8 (shifted_ts x) = take_bit 56 x"
  unfolding shifted_ts_push_bit by (rule bit_word_eqI) (auto simp: bit_simps)

lemma ticks_nonneg: "0 \<le> e \<Longrightarrow> ticks e = word_of_int (e div 100)"
  by (simp add: ticks_def signed_divide_int_def sgn_if)

lemma unat_take_bit_ticks: "0 \<le> e \<Longrightarrow> e < 100 * 2 ^ 56 \<Longrightarrow> unat (take_bit 56 (ticks e)) = nat (e div 100)"
proof -
  assume a: "0 \<le> e" "e < 100 * 2 ^ 56"
  then have b: "0 \<le> e div 100" "e div 100 < 2 ^ 56" by simp_all
  have "unat (take_bit 56 (ticks e)) = take_bit 56 (unat (ticks e))"
    by (simp add: unsigned_take_bit_eq)
  also have "unat (ticks e) = nat (take_bit 64 (e div 100))"
    using a by (simp add: ticks_nonneg unat_eq_nat_uint uint_word_of_int_eq)
  also have "take_bit 64 (e div 100) = e div 100"
    using b by (simp add: take_bit_int_eq_self)
  also have "take_bit 56 (nat (e div 100)) = nat (e div 100)"
    using b by (intro take_bit_nat_eq_self) (simp add: nat_less_iff)
  finally show ?thesis .
qed

lemma from_digits_append:
  "from_digits b (xs @ ys) = from_digits b xs * b ^ length ys + from_digits b ys"
  by (induction ys rule: rev_induct)
    (simp_all add: algebra_simps flip: append_assoc)

lemma from_digits_less:
  "set ds \<subseteq> {..<b} \<Longrightarrow> from_digits b ds < b ^ length ds"
proof (induction ds rule: rev_induct)
  case Nil
  then show ?case by simp
next
  case (snoc d ds)
  then have "from_digits b ds < b ^ length ds" and "d < b" by simp_all
  then have "from_digits b ds * b + d < (from_digits b ds + 1) * b" by simp
  also have "\<dots> \<le> b ^ length ds * b"
    using \<open>from_digits b ds < b ^ length ds\<close> by (intro mult_le_mono1) simp
  finally show ?case by (simp add: mult.commute)
qed

lemma from_digits_bytes_less:
  "from_digits 256 (map unat (bs :: byte list)) < 256 ^ length bs"
proof -
  have "set (map unat bs) \<subseteq> {..<256}" using unat_byte_less [of bs] by auto
  from from_digits_less [OF this] show ?thesis by simp
qed

lemma from_digits_positional:
  "from_digits b (map (\<lambda>i. n div b ^ (k - Suc i) mod b) [0..<k]) = n mod b ^ k"
proof (induction k arbitrary: n)
  case 0
  then show ?case by simp
next
  case (Suc k)
  have eq: "map (\<lambda>i. n div b ^ (Suc k - Suc i) mod b) [0..<k]
      = map (\<lambda>i. (n div b) div b ^ (k - Suc i) mod b) [0..<k]"
  proof (rule map_cong [OF refl])
    fix i assume "i \<in> set [0..<k]"
    then have "Suc k - Suc i = Suc (k - Suc i)" by simp
    then show "n div b ^ (Suc k - Suc i) mod b = n div b div b ^ (k - Suc i) mod b"
      by (simp only: power_Suc div_mult2_eq)
  qed
  have "map (\<lambda>i. n div b ^ (Suc k - Suc i) mod b) [0..<Suc k]
      = map (\<lambda>i. n div b ^ (Suc k - Suc i) mod b) [0..<k] @ [n mod b]"
    by simp
  then have "from_digits b (map (\<lambda>i. n div b ^ (Suc k - Suc i) mod b) [0..<Suc k])
      = from_digits b (map (\<lambda>i. (n div b) div b ^ (k - Suc i) mod b) [0..<k]) * b + n mod b"
    by (simp only: eq from_digits_snoc)
  also have "\<dots> = (n div b) mod b ^ k * b + n mod b"
    by (simp only: Suc.IH)
  also have "\<dots> = n mod b ^ Suc k"
    by (simp add: mod_mult2_eq mult.commute)
  finally show ?case .
qed

lemma upt_7: "[0..<7] = [0, 1, 2, 3, 4, 5, 6 :: nat]"
  by (simp add: upt_rec)

lemma map_unat_ts_bytes:
  "map unat (ts_bytes ts) = map (\<lambda>i. (unat ts div 256) div 256 ^ (7 - Suc i) mod 256) [0..<7]"
  unfolding upt_7 by (simp add: ts_bytes_list unat_ucast_drop_bit flip: div_mult2_eq)

lemma from_digits_ts_bytes:
  "from_digits 256 (map unat (ts_bytes ts)) = unat (drop_bit 8 ts)"
proof -
  have "unat ts < 2 ^ 64" using unsigned_less [of ts, where ?'a = nat] by simp
  then have b: "unat ts div 256 < 256 ^ 7" by simp
  have "from_digits 256 (map unat (ts_bytes ts)) = (unat ts div 256) mod 256 ^ 7"
    by (simp only: map_unat_ts_bytes from_digits_positional)
  also have "\<dots> = unat ts div 256" using b by simp
  also have "\<dots> = unat (drop_bit 8 ts)"
    by (simp only: unat_drop_bit_eq) (simp add: drop_bit_eq_div)
  finally show ?thesis .
qed

lemma from_digits_payload:
  "length rnd = 12 \<Longrightarrow>
     from_digits 256 (map unat (ts_bytes (shifted_ts x) @ rnd))
       = unat (take_bit 56 x) * 2 ^ 96 + from_digits 256 (map unat rnd)"
  by (simp add: from_digits_append from_digits_ts_bytes drop_bit_shifted_ts)

lemma ticks_before_epoch: "ticks (- 150) = 0xFFFFFFFFFFFFFFFF"
  by (simp add: ticks_def signed_divide_int_def)

lemma floor_before_epoch: "(word_of_int ((- 150) div 100) :: 64 word) = 0xFFFFFFFFFFFFFFFE"
  by simp

text \<open>\<^bold>\<open>C4\<close>, as the code has it. \<^verbatim>\<open>time.Since(epochTime) / 100\<close> is a division of
  signed 64-bit integers, which rounds toward zero, and \<^verbatim>\<open>uint64\<close> wraps the quotient. With
  \<open>ts\<close> this quotient and \<open>shifted = (ts << 8) & 0xFFFFFFFFFFFFFF00\<close> as 64-bit values, the
  seven bytes that follow the prefix part of a generated identifier are
  \<open>byte[i] = (shifted >> (56 - 8 i)) & 0xFF\<close>: the big-endian form of bits 63..8 of
  \<open>shifted\<close>. Bits 7..0 of \<open>shifted\<close> are zero and byte 6 holds its bits 15..8. The
  quotient is \<open>\<lfloor>elapsed / 100\<rfloor>\<close> for a clock at or after the epoch, and
  \<open>- \<lfloor>- elapsed / 100\<rfloor>\<close> for a clock before it.\<close>

theorem C4_timestamp_bytes:
  assumes "New p elapsed entropy = Returns (Inr t)"
  shows "(\<forall>i<7. t ! (length t - 19 + i)
            = ucast (drop_bit (56 - 8 * i)
                (push_bit 8 (word_of_int (elapsed sdiv 100) :: 64 word) AND 0xFFFFFFFFFFFFFF00)
                AND 0xFF))
    \<and> take_bit 8 (push_bit 8 (word_of_int (elapsed sdiv 100) :: 64 word)
          AND 0xFFFFFFFFFFFFFF00) = 0
    \<and> t ! (length t - 19 + 6)
        = ucast (take_bit 8 (drop_bit 8
            (push_bit 8 (word_of_int (elapsed sdiv 100) :: 64 word) AND 0xFFFFFFFFFFFFFF00)))
    \<and> from_digits 256 (map unat (take 7 (payload t)))
        = unat (drop_bit 8
            (push_bit 8 (word_of_int (elapsed sdiv 100) :: 64 word) AND 0xFFFFFFFFFFFFFF00))
    \<and> ticks elapsed = word_of_int (elapsed sdiv 100)
    \<and> (0 \<le> elapsed \<longrightarrow> elapsed sdiv 100 = elapsed div 100)
    \<and> (elapsed < 0 \<longrightarrow> elapsed sdiv 100 = - ((- elapsed) div 100))"
proof -
  let ?s = "push_bit 8 (word_of_int (elapsed sdiv 100) :: 64 word) AND 0xFFFFFFFFFFFFFF00"
  let ?pfx = "if p = [] then [] else bytes_of_string (p @ separator)"
  have s: "shifted_ts (ticks elapsed) = ?s"
    by (simp add: shifted_ts_def ticks_def)
  from New_Returns_Inr [OF assms] obtain r where
    t: "t = ?pfx @ ts_bytes ?s @ take 12 r @ replicate (12 - length r) 0"
    unfolding s by blast
  have l: "length t - 19 = length ?pfx" unfolding t by simp
  have nth: "t ! (length t - 19 + i) = ucast (drop_bit (56 - 8 * i) ?s)" if "i < 7" for i
  proof -
    have "t ! (length t - 19 + i) = ts_bytes ?s ! i"
      unfolding l using that by (subst t) (simp add: nth_append)
    also have "\<dots> = ucast (drop_bit (56 - 8 * i) ?s)"
      using that by (simp add: ts_bytes_def)
    finally show ?thesis .
  qed
  have p: "take 7 (payload t) = ts_bytes ?s"
    by (subst t) (simp add: payload_generated)
  have low: "take_bit 8 ?s = 0"
    using shifted_ts_low_byte [of "word_of_int (elapsed sdiv 100)"]
    by (simp only: shifted_ts_def)
  have six: "(ucast (drop_bit 8 ?s) :: byte) = ucast (take_bit 8 (drop_bit 8 ?s))"
    by (rule ucast_take_bit_8)
  show ?thesis
  proof (intro conjI allI impI)
    fix i :: nat assume "i < 7"
    then show "t ! (length t - 19 + i) = ucast (drop_bit (56 - 8 * i) ?s AND 0xFF)"
      by (simp only: nth ucast_and_255)
  next
    show "take_bit 8 ?s = 0" by (rule low)
    show "t ! (length t - 19 + 6) = ucast (take_bit 8 (drop_bit 8 ?s))"
      using nth [of 6] six by simp
    show "from_digits 256 (map unat (take 7 (payload t))) = unat (drop_bit 8 ?s)"
      by (simp only: p from_digits_ts_bytes)
    show "ticks elapsed = word_of_int (elapsed sdiv 100)"
      by (simp add: ticks_def)
  next
    assume "0 \<le> elapsed"
    then show "elapsed sdiv 100 = elapsed div 100"
      by (simp add: signed_divide_int_def sgn_if)
  next
    assume "elapsed < 0"
    then show "elapsed sdiv 100 = - ((- elapsed) div 100)"
      by (simp add: signed_divide_int_def sgn_if)
  qed
qed

theorem C4_timestamp_bytes_witness:
  "New [] 234567 (Some [1, 2, 3, 4, 5, 6, 7, 8, 9, 10, 11, 12])
       = Returns (Inr [0, 0, 0, 0, 0, 9, 41, 1, 2, 3, 4, 5, 6, 7, 8, 9, 10, 11, 12])
   \<and> [0, 0, 0, 0, 0, 9, 41, 1, 2, 3, 4, 5, 6, 7, 8, 9, 10, 11, 12 :: byte]
         ! (length [0, 0, 0, 0, 0, 9, 41, 1, 2, 3, 4, 5, 6, 7, 8, 9, 10, 11, 12 :: byte]
            - 19 + 6)
       = ucast (drop_bit (56 - 8 * 6)
           (push_bit 8 (word_of_int (234567 sdiv 100) :: 64 word) AND 0xFFFFFFFFFFFFFF00)
           AND 0xFF)
   \<and> (234567 :: int) sdiv 100 = 234567 div 100"
proof -
  have n: "New [] 234567 (Some [1, 2, 3, 4, 5, 6, 7, 8, 9, 10, 11, 12])
      = Returns (Inr [0, 0, 0, 0, 0, 9, 41, 1, 2, 3, 4, 5, 6, 7, 8, 9, 10, 11, 12])"
    by (simp add: New_def newID_Nil ts_bytes_list shifted_ts_def ticks_def
        signed_divide_int_def)
  have h: "(0 :: int) \<le> 234567" by simp
  have i: "(6 :: nat) < 7" by simp
  note c = C4_timestamp_bytes [OF n]
  from c [THEN conjunct1, rule_format, OF i]
    c [THEN conjunct2, THEN conjunct2, THEN conjunct2, THEN conjunct2, THEN conjunct2,
       THEN conjunct1, rule_format, OF h] n
  show ?thesis by blast
qed

text \<open>With the clock 150 ns before the epoch the quotient is \<open>-1\<close>, not the floor \<open>-2\<close>:
  the seven bytes are all \<open>0xFF\<close>, where the formula with the floor has \<open>0xFE\<close> at
  index 6.\<close>

theorem C4_counterexample:
  "New [] (- 150) (Some [1, 2, 3, 4, 5, 6, 7, 8, 9, 10, 11, 12])
       = Returns (Inr [255, 255, 255, 255, 255, 255, 255,
           1, 2, 3, 4, 5, 6, 7, 8, 9, 10, 11, 12])
   \<and> [255, 255, 255, 255, 255, 255, 255, 1, 2, 3, 4, 5, 6, 7, 8, 9, 10, 11, 12 :: byte]
         ! (length [255, 255, 255, 255, 255, 255, 255,
              1, 2, 3, 4, 5, 6, 7, 8, 9, 10, 11, 12 :: byte] - 19 + 6) = 255
   \<and> (ucast (drop_bit (56 - 8 * 6)
           (push_bit 8 (word_of_int ((- 150) div 100) :: 64 word) AND 0xFFFFFFFFFFFFFF00)
           AND 0xFF) :: byte) = 254"
proof -
  have n: "New [] (- 150) (Some [1, 2, 3, 4, 5, 6, 7, 8, 9, 10, 11, 12])
      = Returns (Inr [255, 255, 255, 255, 255, 255, 255,
          1, 2, 3, 4, 5, 6, 7, 8, 9, 10, 11, 12])"
    by (simp add: New_def newID_Nil ts_bytes_list shifted_ts_def ticks_before_epoch)
  have f: "(ucast (drop_bit (56 - 8 * 6)
           (push_bit 8 (word_of_int ((- 150) div 100) :: 64 word) AND 0xFFFFFFFFFFFFFF00)
           AND 0xFF) :: byte) = 254"
    unfolding floor_before_epoch by simp
  from n f show ?thesis by simp
qed

section \<open>The length of the encoded payload\<close>

lemma from_digits_Cons: "from_digits b (d # ds) = d * b ^ length ds + from_digits b ds"
  using from_digits_append [of b "[d]" ds] by (simp add: from_digits_def)

text \<open>A byte string with \<open>z\<close> leading zero bytes out of \<open>n\<close> has a value between
  \<open>256 ^ (n - z - 1)\<close> and \<open>256 ^ (n - z)\<close>.\<close>

lemma value_upper:
  "from_digits 256 (map unat (bs :: byte list))
     < 256 ^ (length bs - length (takeWhile (\<lambda>x. x = 0) bs))"
proof -
  have "from_digits 256 (map unat bs) = from_digits 256 (map unat (dropWhile (\<lambda>x. x = 0) bs))"
    by (induction bs) simp_all
  also have "\<dots> < 256 ^ length (dropWhile (\<lambda>x. x = 0) bs)"
    by (rule from_digits_bytes_less)
  also have "length (dropWhile (\<lambda>x. x = 0) bs)
      = length bs - length (takeWhile (\<lambda>x. x = 0) bs)"
    by (induction bs) simp_all
  finally show ?thesis .
qed

lemma value_lower:
  assumes "length (takeWhile (\<lambda>x. x = 0) bs) < length bs"
  shows "256 ^ (length bs - Suc (length (takeWhile (\<lambda>x. x = 0) bs)))
           \<le> from_digits 256 (map unat (bs :: byte list))"
  using assms
proof (induction bs)
  case Nil
  then show ?case by simp
next
  case (Cons x xs)
  show ?case
  proof (cases "x = 0")
    case True
    with Cons show ?thesis by simp
  next
    case False
    then have "1 \<le> unat x" by (simp add: unat_eq_0 Suc_le_eq unat_gt_0)
    then have "(256 :: nat) ^ length xs \<le> unat x * 256 ^ length xs" by simp
    then have "(256 :: nat) ^ length xs
        \<le> unat x * 256 ^ length xs + from_digits 256 (map unat xs)"
      by (rule trans_le_add1)
    with False show ?thesis by (simp add: from_digits_Cons)
  qed
qed

lemma length_digits_ge: "2 \<le> b \<Longrightarrow> k \<le> length (digits b n) \<longleftrightarrow> (k = 0 \<or> b ^ (k - 1) \<le> n)"
proof (cases k)
  case 0
  then show ?thesis by simp
next
  case (Suc j)
  assume "2 \<le> b"
  from length_digits_le [OF this, of n j] Suc show ?thesis by auto
qed

lemma pow_256_le_58: "z \<le> 19 \<Longrightarrow> (256 :: nat) ^ (19 - z) \<le> 58 ^ (26 - z)"
proof -
  assume z: "z \<le> 19"
  have "(256 :: nat) ^ (19 - z) * 58 ^ z \<le> 256 ^ (19 - z) * 256 ^ z"
    by (intro mult_le_mono2 power_mono) simp_all
  also have "\<dots> = 256 ^ 19" using z by (simp flip: power_add)
  also have "\<dots> \<le> (58 :: nat) ^ 26" by simp
  also have "\<dots> = 58 ^ (26 - z) * 58 ^ z" using z by (simp flip: power_add)
  finally show ?thesis by simp
qed

lemma pow_58_le_256: "(58 :: nat) ^ k \<le> 256 ^ k"
  by (rule power_mono) simp_all

lemma length_EncodeAlphabet_bounds:
  assumes "length pl = 19"
  shows "19 \<le> length (EncodeAlphabet pl)" and "length (EncodeAlphabet pl) \<le> 26"
proof -
  let ?z = "length (takeWhile (\<lambda>x. x = 0) pl)"
  let ?v = "from_digits 256 (map unat pl)"
  have z: "?z \<le> 19" using length_takeWhile_le [of _ pl] assms by simp
  have "?v < 256 ^ (19 - ?z)" using value_upper [of pl] assms by simp
  also have "\<dots> \<le> 58 ^ (26 - ?z)" by (rule pow_256_le_58 [OF z])
  finally have "length (digits 58 ?v) \<le> 26 - ?z" by (simp add: length_digits_le)
  with z show "length (EncodeAlphabet pl) \<le> 26" by (simp add: length_EncodeAlphabet)
  show "19 \<le> length (EncodeAlphabet pl)"
  proof (cases "?z = 19")
    case True
    then show ?thesis by (simp add: length_EncodeAlphabet)
  next
    case False
    with z have lt: "?z < length pl" using assms by simp
    have "(58 :: nat) ^ (18 - ?z) \<le> 256 ^ (18 - ?z)" by (rule pow_58_le_256)
    also have "\<dots> \<le> ?v" using value_lower [OF lt] assms by simp
    finally have "19 - ?z \<le> length (digits 58 ?v)"
      by (simp add: length_digits_ge)
    then show ?thesis by (simp add: length_EncodeAlphabet)
  qed
qed

lemma hd_nonzero_value:
  assumes "length pl = 19"
  shows "hd pl \<noteq> 0 \<longleftrightarrow> 256 ^ 18 \<le> from_digits 256 (map unat (pl :: byte list))"
proof -
  from assms obtain x xs where pl: "pl = x # xs" and xs: "length xs = 18"
    by (cases pl) auto
  show ?thesis
  proof (cases "x = 0")
    case True
    have "from_digits 256 (map unat xs) < 256 ^ 18"
      using from_digits_bytes_less [of xs] xs by simp
    with True pl show ?thesis by simp
  next
    case False
    then have "length (takeWhile (\<lambda>x. x = 0) pl) = 0" using pl by simp
    with value_lower [of pl] assms False pl show ?thesis by simp
  qed
qed

lemma length_EncodeAlphabet_hd:
  assumes "length pl = 19" and "hd pl \<noteq> 0"
  shows "length (EncodeAlphabet pl) = 25 \<longleftrightarrow> from_digits 256 (map unat pl) < 58 ^ 25"
    and "length (EncodeAlphabet pl) = 26 \<longleftrightarrow> 58 ^ 25 \<le> from_digits 256 (map unat pl)"
proof -
  let ?v = "from_digits 256 (map unat pl)"
  from assms obtain x xs where pl: "pl = x # xs" by (cases pl) auto
  with assms(2) have z: "takeWhile (\<lambda>x. x = 0) pl = []" by simp
  have len: "length (EncodeAlphabet pl) = length (digits 58 ?v)"
    by (simp add: length_EncodeAlphabet z)
  have lo: "(58 :: nat) ^ 24 \<le> ?v"
  proof -
    have "(58 :: nat) ^ 24 \<le> 256 ^ 18" by simp
    also have "\<dots> \<le> ?v" using hd_nonzero_value [OF assms(1)] assms(2) by simp
    finally show ?thesis .
  qed
  have hi: "?v < 58 ^ 26"
  proof -
    have "?v < 256 ^ 19" using from_digits_bytes_less [of pl] assms(1) by simp
    also have "\<dots> \<le> (58 :: nat) ^ 26" by simp
    finally show ?thesis .
  qed
  from length_digits_eq [of 58 ?v 24] lo
  show "length (EncodeAlphabet pl) = 25 \<longleftrightarrow> ?v < 58 ^ 25"
    unfolding len by simp
  from length_digits_eq [of 58 ?v 25] hi
  show "length (EncodeAlphabet pl) = 26 \<longleftrightarrow> 58 ^ 25 \<le> ?v"
    unfolding len by simp
qed

section \<open>Generated identifiers as text\<close>

lemma length_EncodeAlphabet_ge_25:
  assumes "length pl = 19" and "58 ^ 22 \<le> from_digits 256 (map unat pl)"
  shows "25 \<le> length (EncodeAlphabet pl)"
proof -
  let ?z = "length (takeWhile (\<lambda>x. x = 0) pl)"
  let ?v = "from_digits 256 (map unat pl)"
  have "(256 :: nat) ^ 16 < 58 ^ 22" by simp
  also have "\<dots> \<le> ?v" by (rule assms(2))
  also have "?v < 256 ^ (19 - ?z)" using value_upper [of pl] assms(1) by simp
  finally have lt16: "(256 :: nat) ^ 16 < 256 ^ (19 - ?z)" .
  have "16 < 19 - ?z" by (rule power_less_imp_less_exp [OF _ lt16]) simp
  then have z: "?z = 0 \<or> ?z = 1 \<or> ?z = 2" by arith
  then have lt: "?z < length pl" using assms(1) by auto
  from value_lower [OF lt] assms(1) have lo: "256 ^ (18 - ?z) \<le> ?v" by simp
  have d: "25 - ?z \<le> length (digits 58 ?v)"
    using z
  proof (elim disjE)
    assume z0: "?z = 0"
    have "(58 :: nat) ^ 24 \<le> 256 ^ 18" by simp
    also have "\<dots> \<le> ?v" using lo z0 by simp
    finally show ?thesis using z0 by (simp add: length_digits_ge)
  next
    assume z1: "?z = 1"
    have "(58 :: nat) ^ 23 \<le> 256 ^ 17" by simp
    also have "\<dots> \<le> ?v" using lo z1 by simp
    finally show ?thesis using z1 by (simp add: length_digits_ge)
  next
    assume z2: "?z = 2"
    with assms(2) show ?thesis by (simp add: length_digits_ge)
  qed
  then show ?thesis by (simp add: length_EncodeAlphabet)
qed

lemma generated_value:
  assumes "0 \<le> elapsed" and "elapsed < 100 * 2 ^ 56"
  shows "from_digits 256
           (map unat (ts_bytes (shifted_ts (ticks elapsed))
                      @ take 12 r @ replicate (12 - length r) 0))
         = nat (elapsed div 100) * 2 ^ 96
           + from_digits 256 (map unat (take 12 r @ replicate (12 - length r) 0))"
  using from_digits_payload [of "take 12 r @ replicate (12 - length r) 0" "ticks elapsed"]
  by (simp only: length_rnd unat_take_bit_ticks [OF assms])

lemma rnd_value_less:
  "from_digits 256 (map unat (take 12 r @ replicate (12 - length r) (0 :: byte))) < 2 ^ 96"
  using from_digits_bytes_less [of "take 12 r @ replicate (12 - length r) 0"]
  by (simp only: length_rnd) simp

lemma generated_text:
  assumes "New p elapsed entropy = Returns (Inr t)"
  shows "ID_String t = Returns ((if p = [] then [] else p @ separator)
                                @ EncodeAlphabet (payload t))"
    and "Parse ((if p = [] then [] else p @ separator) @ EncodeAlphabet (payload t))
         = (if length (EncodeAlphabet (payload t)) < 25 then Inl errStringSizeMismatch
            else Inr t)"
    and "length (payload t) = 19"
    and "length t = (if p = [] then 19 else 23)"
proof -
  from New_Returns_Inr [OF assms] obtain r where
    v: "validatePrefix p True = None" and
    t: "t = (if p = [] then [] else bytes_of_string (p @ separator))
          @ ts_bytes (shifted_ts (ticks elapsed)) @ take 12 r @ replicate (12 - length r) 0"
    by blast
  let ?pl = "ts_bytes (shifted_ts (ticks elapsed)) @ take 12 r @ replicate (12 - length r) 0"
  have pl: "payload t = ?pl" unfolding t by (rule payload_generated)
  have l: "length ?pl = 19" by simp
  then have ne: "?pl \<noteq> []" by auto
  show "length (payload t) = 19" unfolding pl by (rule l)
  from v have p3: "p = [] \<or> length p = 3" and sep: "CHR ''-'' \<notin> set p"
    by (simp_all add: validatePrefix_True)
  show "length t = (if p = [] then 19 else 23)"
    using p3 unfolding t by (auto simp: separator_def)
  show "ID_String t = Returns ((if p = [] then [] else p @ separator)
                                @ EncodeAlphabet (payload t))"
  proof (cases "p = []")
    case True
    then have "t = ?pl" using t by simp
    with True pl l show ?thesis
      by (simp add: ID_String_short byteLength_def timeBytesLen_def randomBytesLen_def)
  next
    case False
    then have tt: "t = bytes_of_string (p @ separator) @ ?pl" using t by simp
    have "byteLength < length p + 1 + length ?pl"
      by (simp add: byteLength_def timeBytesLen_def randomBytesLen_def)
    from ID_String_prefixed [OF sep this] False pl show ?thesis
      unfolding tt by simp
  qed
  show "Parse ((if p = [] then [] else p @ separator) @ EncodeAlphabet (payload t))
         = (if length (EncodeAlphabet (payload t)) < 25 then Inl errStringSizeMismatch
            else Inr t)"
  proof (cases "p = []")
    case True
    then have "t = ?pl" using t by simp
    with True pl l Parse_unprefixed [OF ne] show ?thesis by simp
  next
    case False
    then have tt: "t = bytes_of_string (p @ separator) @ ?pl" using t by simp
    from Parse_prefixed [OF v ne] False l pl show ?thesis
      unfolding tt by simp
  qed
qed

section \<open>When the payload text changes length\<close>

lemma TrimSuffix_id: "c \<notin> set s \<Longrightarrow> TrimSuffix s [c] = s"
proof (cases s rule: rev_cases)
  case Nil
  then show ?thesis by (simp add: TrimSuffix_Nil)
next
  case (snoc ys y)
  assume "c \<notin> set s"
  with snoc show ?thesis by (auto simp: TrimSuffix_def HasSuffix_def)
qed

lemma GenerateWithPrefix_Returns:
  assumes "GenerateWithPrefix p elapsed entropy = Returns s" and "CHR ''-'' \<notin> set p"
  shows "\<exists>t. New p elapsed entropy = Returns (Inr t) \<and> ID_String t = Returns s"
proof -
  have tr: "TrimSuffix p separator = p"
    using assms(2) by (simp add: separator_def TrimSuffix_id)
  show ?thesis
  proof (cases "New p elapsed entropy")
    case Panics
    with assms(1) tr show ?thesis by (simp add: GenerateWithPrefix_def)
  next
    case (Returns x)
    show ?thesis
    proof (cases x)
      case (Inl e)
      with Returns assms(1) tr show ?thesis by (simp add: GenerateWithPrefix_def)
    next
      case (Inr t)
      with Returns assms(1) tr show ?thesis by (simp add: GenerateWithPrefix_def)
    qed
  qed
qed

lemma GenerateWithPrefix_eq:
  assumes "validatePrefix p True = None" and "p \<noteq> []"
  shows "GenerateWithPrefix p elapsed (Some r) =
     Returns (p @ separator @ EncodeAlphabet (ts_bytes (shifted_ts (ticks elapsed))
                @ take 12 r @ replicate (12 - length r) 0))"
proof -
  from assms(1) have sep: "CHR ''-'' \<notin> set p" by (simp add: validatePrefix_True)
  then have tr: "TrimSuffix p separator = p" by (simp add: separator_def TrimSuffix_id)
  let ?pl = "ts_bytes (shifted_ts (ticks elapsed)) @ take 12 r @ replicate (12 - length r) 0"
  have n: "New p elapsed (Some r) = Returns (Inr (bytes_of_string (p @ separator) @ ?pl))"
    by (simp only: New_def newID_prefix [OF assms])
  have "byteLength < length p + 1 + length ?pl"
    by (simp add: byteLength_def timeBytesLen_def randomBytesLen_def)
  from ID_String_prefixed [OF sep this] show ?thesis
    by (simp add: GenerateWithPrefix_def tr n)
qed

lemma generated_payload_value:
  assumes "New p elapsed entropy = Returns (Inr t)"
    and "0 \<le> elapsed" and "elapsed < 100 * 2 ^ 56"
  shows "\<exists>R < 2 ^ 96. from_digits 256 (map unat (payload t)) = nat (elapsed div 100) * 2 ^ 96 + R"
proof -
  from New_Returns_Inr [OF assms(1)] obtain r where
    t: "t = (if p = [] then [] else bytes_of_string (p @ separator))
        @ ts_bytes (shifted_ts (ticks elapsed)) @ take 12 r @ replicate (12 - length r) 0"
    by blast
  have pl: "payload t
      = ts_bytes (shifted_ts (ticks elapsed)) @ take 12 r @ replicate (12 - length r) 0"
    unfolding t by (rule payload_generated)
  show ?thesis
    unfolding pl generated_value [OF assms(2,3)]
    using rnd_value_less [of r] by blast
qed

text \<open>Identifiers generated from \<open>2 ^ 48\<close> ticks after the epoch (2022-11-22) until tick
  1537518164588187 (2026-11-15, 12:50:16 UTC) have a payload text of 25 characters; from
  tick 1537518164588189 on it has 26.\<close>

lemma generated_length_25:
  assumes "New p elapsed entropy = Returns (Inr t)"
    and "100 * 2 ^ 48 \<le> elapsed" and "elapsed < 153751816458818800"
  shows "length (EncodeAlphabet (payload t)) = 25"
proof -
  from assms(2) have e0: "0 \<le> elapsed" by simp
  from assms(3) have e1: "elapsed < 100 * 2 ^ 56" by simp
  from generated_payload_value [OF assms(1) e0 e1] obtain R where
    R: "R < 2 ^ 96" and
    v: "from_digits 256 (map unat (payload t)) = nat (elapsed div 100) * 2 ^ 96 + R"
    by blast
  note l = generated_text(3) [OF assms(1)]
  from assms(2) have "(100 * 2 ^ 48) div 100 \<le> elapsed div (100 :: int)"
    by (intro zdiv_mono1) simp_all
  then have "2 ^ 48 \<le> nat (elapsed div 100)" by simp
  then have "2 ^ 48 * 2 ^ 96 \<le> nat (elapsed div 100) * 2 ^ 96" by (rule mult_le_mono1)
  then have lo: "256 ^ 18 \<le> from_digits 256 (map unat (payload t))"
    unfolding v by simp
  from assms(3) have "elapsed div 100 < 1537518164588188" by simp
  then have "nat (elapsed div 100) + 1 \<le> 1537518164588188" using e0 by simp
  then have "(nat (elapsed div 100) + 1) * 2 ^ 96 \<le> 1537518164588188 * 2 ^ 96"
    by (rule mult_le_mono1)
  moreover have "(1537518164588188 :: nat) * 2 ^ 96 \<le> 58 ^ 25" by simp
  moreover have "nat (elapsed div 100) * 2 ^ 96 + R < (nat (elapsed div 100) + 1) * 2 ^ 96"
    using R by simp
  ultimately have hi: "from_digits 256 (map unat (payload t)) < 58 ^ 25"
    unfolding v by linarith
  from lo have "hd (payload t) \<noteq> 0" by (simp only: hd_nonzero_value [OF l])
  from length_EncodeAlphabet_hd(1) [OF l this] hi show ?thesis by simp
qed

lemma generated_length_26:
  assumes "New p elapsed entropy = Returns (Inr t)"
    and "153751816458818900 \<le> elapsed" and "elapsed < 100 * 2 ^ 56"
  shows "length (EncodeAlphabet (payload t)) = 26"
proof -
  from assms(2) have e0: "0 \<le> elapsed" by simp
  from generated_payload_value [OF assms(1) e0 assms(3)] obtain R where
    v: "from_digits 256 (map unat (payload t)) = nat (elapsed div 100) * 2 ^ 96 + R"
    by blast
  note l = generated_text(3) [OF assms(1)]
  from assms(2) have "153751816458818900 div 100 \<le> elapsed div (100 :: int)"
    by (intro zdiv_mono1) simp_all
  then have "1537518164588189 \<le> nat (elapsed div 100)" by simp
  then have "1537518164588189 * 2 ^ 96 \<le> nat (elapsed div 100) * 2 ^ 96"
    by (rule mult_le_mono1)
  moreover have "(58 :: nat) ^ 25 \<le> 1537518164588189 * 2 ^ 96" by simp
  ultimately have hi: "58 ^ 25 \<le> from_digits 256 (map unat (payload t))"
    unfolding v by linarith
  have "(256 :: nat) ^ 18 \<le> 58 ^ 25" by simp
  with hi have "256 ^ 18 \<le> from_digits 256 (map unat (payload t))" by linarith
  then have "hd (payload t) \<noteq> 0" by (simp only: hd_nonzero_value [OF l])
  from length_EncodeAlphabet_hd(2) [OF l this] hi show ?thesis by simp
qed

lemma generated_length_ge_25:
  assumes "New p elapsed entropy = Returns (Inr t)"
    and e: "800000000000 \<le> elapsed \<and> elapsed < 100 * 2 ^ 56"
  shows "25 \<le> length (EncodeAlphabet (payload t))"
proof -
  from e have e0: "0 \<le> elapsed" and e1: "elapsed < 100 * 2 ^ 56" by simp_all
  from generated_payload_value [OF assms(1) e0 e1] obtain R where
    v: "from_digits 256 (map unat (payload t)) = nat (elapsed div 100) * 2 ^ 96 + R"
    by blast
  from e have "800000000000 div 100 \<le> elapsed div (100 :: int)"
    by (intro zdiv_mono1) simp_all
  then have "8000000000 \<le> nat (elapsed div 100)" by simp
  then have "8000000000 * 2 ^ 96 \<le> nat (elapsed div 100) * 2 ^ 96"
    by (rule mult_le_mono1)
  moreover have "(58 :: nat) ^ 22 \<le> 8000000000 * 2 ^ 96" by simp
  ultimately have "58 ^ 22 \<le> from_digits 256 (map unat (payload t))"
    unfolding v by linarith
  with generated_text(3) [OF assms(1)] show ?thesis by (rule length_EncodeAlphabet_ge_25)
qed

text \<open>\<^bold>\<open>C3\<close>, as the code has it. For an identifier \<open>t\<close> that \<^verbatim>\<open>New\<close> returns,
  \<^verbatim>\<open>String\<close> returns a text \<open>s\<close>; \<^verbatim>\<open>Parse s\<close> returns exactly the bytes of \<open>t\<close> when
  the base-58 text of the payload has at least 25 characters, and fails with
  \<^verbatim>\<open>errStringSizeMismatch\<close> when it has fewer. The text has at least 25 characters for
  every clock reading from 800 seconds after the epoch until the 56-bit tick field
  overflows.\<close>

theorem C3_parse_string_roundtrip:
  assumes "New p elapsed entropy = Returns (Inr t)"
  shows "\<exists>s. ID_String t = Returns s
     \<and> (25 \<le> length (EncodeAlphabet (payload t)) \<longrightarrow> Parse s = Inr t)
     \<and> (length (EncodeAlphabet (payload t)) < 25 \<longrightarrow> Parse s = Inl errStringSizeMismatch)
     \<and> (800000000000 \<le> elapsed \<and> elapsed < 100 * 2 ^ 56 \<longrightarrow>
          25 \<le> length (EncodeAlphabet (payload t)))"
proof -
  let ?s = "(if p = [] then [] else p @ separator) @ EncodeAlphabet (payload t)"
  note g = generated_text [OF assms]
  show ?thesis
  proof (intro exI [of _ ?s] conjI impI)
    show "ID_String t = Returns ?s" by (rule g(1))
    show "Parse ?s = Inr t" if "25 \<le> length (EncodeAlphabet (payload t))"
      using that by (simp only: g(2)) simp
    show "Parse ?s = Inl errStringSizeMismatch" if "length (EncodeAlphabet (payload t)) < 25"
      using that by (simp only: g(2)) simp
    show "25 \<le> length (EncodeAlphabet (payload t))"
      if "800000000000 \<le> elapsed \<and> elapsed < 100 * 2 ^ 56"
      using assms that by (rule generated_length_ge_25)
  qed
qed

section \<open>Concrete identifiers\<close>

text \<open>Clock readings used below, in nanoseconds since the epoch: 2023-06-01, 2024-01-01,
  2025-01-01, 2026-12-01 and 2027-01-01, all at 00:00 UTC, and the two ticks either side
  of the instant at which the payload text grows to 26 characters.\<close>

lemma ts_2024: "ts_bytes (shifted_ts (ticks 63072000000000000)) = [2, 61, 162, 241, 141, 128, 0]"
  by (simp add: ts_bytes_list shifted_ts_def ticks_def signed_divide_int_def)

lemma ts_2025: "ts_bytes (shifted_ts (ticks 94694400000000000)) = [3, 93, 61, 148, 190, 0, 0]"
  by (simp add: ts_bytes_list shifted_ts_def ticks_def signed_divide_int_def)

lemma ts_2023: "ts_bytes (shifted_ts (ticks 44582400000000000)) = [1, 149, 121, 125, 39, 0, 0]"
  by (simp add: ts_bytes_list shifted_ts_def ticks_def signed_divide_int_def)

lemma ts_2026_12: "ts_bytes (shifted_ts (ticks 155088000000000000)) = [5, 130, 132, 99, 125, 64, 0]"
  by (simp add: ts_bytes_list shifted_ts_def ticks_def signed_divide_int_def)

lemma ts_2027: "ts_bytes (shifted_ts (ticks 157766400000000000)) = [5, 154, 224, 134, 75, 128, 0]"
  by (simp add: ts_bytes_list shifted_ts_def ticks_def signed_divide_int_def)

lemma ts_before: "ts_bytes (shifted_ts (ticks 153751816458818800)) = [5, 118, 93, 88, 9, 54, 156]"
  by (simp add: ts_bytes_list shifted_ts_def ticks_def signed_divide_int_def)

lemma ts_after: "ts_bytes (shifted_ts (ticks 153751816458818900)) = [5, 118, 93, 88, 9, 54, 157]"
  by (simp add: ts_bytes_list shifted_ts_def ticks_def signed_divide_int_def)

lemma ts_epoch: "ts_bytes (shifted_ts (ticks 0)) = [0, 0, 0, 0, 0, 0, 0]"
  by (simp add: ts_bytes_list shifted_ts_def ticks_def)

lemma enc_2026_12:
  "EncodeAlphabet [5, 130, 132, 99, 125, 64, 0, 1, 2, 3, 4, 5, 6, 7, 8, 9, 10, 11, 12]
     = ''21WEdFvVpKrBCuRWxseMsafU3D''"
  by (simp add: EncodeAlphabet_def from_digits_def digits.simps alphabets_def)

lemma enc_2023:
  "EncodeAlphabet [1, 149, 121, 125, 39, 0, 0, 1, 2, 3, 4, 5, 6, 7, 8, 9, 10, 11, 12]
     = ''HpSLhPAWfVEdFYKyte9X98JkK''"
  by (simp add: EncodeAlphabet_def from_digits_def digits.simps alphabets_def)

lemma enc_2027:
  "EncodeAlphabet [5, 154, 224, 134, 75, 128, 0, 1, 2, 3, 4, 5, 6, 7, 8, 9, 10, 11, 12]
     = ''22WqXouohTDbA6KQqTVhopALZ9''"
  by (simp add: EncodeAlphabet_def from_digits_def digits.simps alphabets_def)

lemma enc_before:
  "EncodeAlphabet [5, 118, 93, 88, 9, 54, 156, 0, 0, 0, 0, 0, 0, 0, 0, 0, 0, 0, 0]
     = ''zzzzzzzzwFHo4SCDRhkVTGiXy''"
  by (simp add: EncodeAlphabet_def from_digits_def digits.simps alphabets_def)

lemma enc_after:
  "EncodeAlphabet [5, 118, 93, 88, 9, 54, 157, 0, 0, 0, 0, 0, 0, 0, 0, 0, 0, 0, 0]
     = ''21111111125V5X3soqeaQzq7gb''"
  by (simp add: EncodeAlphabet_def from_digits_def digits.simps alphabets_def)

lemma enc_epoch:
  "EncodeAlphabet [0, 0, 0, 0, 0, 0, 0, 1, 2, 3, 4, 5, 6, 7, 8, 9, 10, 11, 12]
     = ''111111126ysEDTvDr2AqkA7''"
  by (simp add: EncodeAlphabet_def from_digits_def digits.simps alphabets_def)

lemma valid_acc: "validatePrefix ''acc'' True = None"
  and valid_rid: "validatePrefix ''rid'' True = None"
  and valid_Nil: "validatePrefix [] True = None"
  by (simp_all add: validatePrefix_True)

section \<open>The claims about the text form\<close>

theorem C3_parse_string_roundtrip_witness:
  "New ''acc'' 94694400000000000 (Some [1, 2, 3, 4, 5, 6, 7, 8, 9, 10, 11, 12])
     = Returns (Inr (bytes_of_string ''acc-''
         @ [3, 93, 61, 148, 190, 0, 0, 1, 2, 3, 4, 5, 6, 7, 8, 9, 10, 11, 12]))
   \<and> (\<exists>s. ID_String (bytes_of_string ''acc-''
              @ [3, 93, 61, 148, 190, 0, 0, 1, 2, 3, 4, 5, 6, 7, 8, 9, 10, 11, 12])
            = Returns s
          \<and> Parse s = Inr (bytes_of_string ''acc-''
              @ [3, 93, 61, 148, 190, 0, 0, 1, 2, 3, 4, 5, 6, 7, 8, 9, 10, 11, 12]))"
proof -
  let ?t = "bytes_of_string ''acc-''
              @ [3, 93, 61, 148, 190, 0, 0, 1, 2, 3, 4, 5, 6, 7, 8, 9, 10, 11, 12 :: byte]"
  have "''acc'' \<noteq> []" by simp
  from newID_prefix [OF valid_acc this, of 94694400000000000 "[1, 2, 3, 4, 5, 6, 7, 8, 9, 10, 11, 12]"]
  have n: "New ''acc'' 94694400000000000 (Some [1, 2, 3, 4, 5, 6, 7, 8, 9, 10, 11, 12])
      = Returns (Inr ?t)"
    by (simp add: New_def ts_2025 separator_def)
  have e: "(800000000000 :: int) \<le> 94694400000000000 \<and> (94694400000000000 :: int) < 100 * 2 ^ 56"
    by simp
  from C3_parse_string_roundtrip [OF n] obtain s where
    s: "ID_String ?t = Returns s" and
    p: "25 \<le> length (EncodeAlphabet (payload ?t)) \<longrightarrow> Parse s = Inr ?t" and
    l: "800000000000 \<le> (94694400000000000 :: int) \<and> (94694400000000000 :: int) < 100 * 2 ^ 56
         \<longrightarrow> 25 \<le> length (EncodeAlphabet (payload ?t))"
    by blast
  from l e have "25 \<le> length (EncodeAlphabet (payload ?t))" by blast
  with p have "Parse s = Inr ?t" by blast
  with s n show ?thesis by blast
qed

theorem C3_counterexample:
  "New [] 0 (Some [1, 2, 3, 4, 5, 6, 7, 8, 9, 10, 11, 12])
     = Returns (Inr [0, 0, 0, 0, 0, 0, 0, 1, 2, 3, 4, 5, 6, 7, 8, 9, 10, 11, 12])
   \<and> ID_String [0, 0, 0, 0, 0, 0, 0, 1, 2, 3, 4, 5, 6, 7, 8, 9, 10, 11, 12]
       = Returns ''111111126ysEDTvDr2AqkA7''
   \<and> Parse ''111111126ysEDTvDr2AqkA7'' = Inl errStringSizeMismatch"
proof -
  have n: "New [] 0 (Some [1, 2, 3, 4, 5, 6, 7, 8, 9, 10, 11, 12])
     = Returns (Inr [0, 0, 0, 0, 0, 0, 0, 1, 2, 3, 4, 5, 6, 7, 8, 9, 10, 11, 12])"
    by (simp add: New_def newID_Nil ts_epoch)
  have s: "ID_String [0, 0, 0, 0, 0, 0, 0, 1, 2, 3, 4, 5, 6, 7, 8, 9, 10, 11, 12]
       = Returns ''111111126ysEDTvDr2AqkA7''"
    by (simp add: ID_String_short byteLength_def timeBytesLen_def randomBytesLen_def enc_epoch)
  have "Index ''111111126ysEDTvDr2AqkA7'' separator = None"
    unfolding Index_separator_None by simp
  then have p: "Parse ''111111126ysEDTvDr2AqkA7'' = Inl errStringSizeMismatch"
    by (simp add: Parse_None)
  from n s p show ?thesis by blast
qed

text \<open>\<^bold>\<open>C1\<close>, as the code has it. \<^verbatim>\<open>String\<close> does not pad. The text of a 19-byte payload
  is one \<open>1\<close> for each leading zero byte followed by the base-58 digits of the payload's
  big-endian value, and has between 19 and 26 characters; when the first payload byte is
  not zero it has 25 characters if the value is below \<open>58 ^ 25\<close> and 26 otherwise.
  The full text is this text without a prefix, and four characters more with one.\<close>

theorem C1_payload_text_length:
  assumes "length pl = 19"
  shows "length (EncodeAlphabet pl)
           = length (takeWhile (\<lambda>x. x = 0) pl)
             + length (digits 58 (from_digits 256 (map unat pl)))
    \<and> 19 \<le> length (EncodeAlphabet pl) \<and> length (EncodeAlphabet pl) \<le> 26
    \<and> (hd pl \<noteq> 0 \<longrightarrow>
          (length (EncodeAlphabet pl) = 25 \<longleftrightarrow> from_digits 256 (map unat pl) < 58 ^ 25)
          \<and> (length (EncodeAlphabet pl) = 26 \<longleftrightarrow> 58 ^ 25 \<le> from_digits 256 (map unat pl)))
    \<and> ID_String pl = Returns (EncodeAlphabet pl)
    \<and> (validatePrefix p True = None \<and> p \<noteq> [] \<longrightarrow>
          ID_String (bytes_of_string (p @ separator) @ pl)
            = Returns (p @ separator @ EncodeAlphabet pl)
          \<and> length (p @ separator @ EncodeAlphabet pl) = 4 + length (EncodeAlphabet pl))"
proof (intro conjI impI)
  show "length (EncodeAlphabet pl)
           = length (takeWhile (\<lambda>x. x = 0) pl)
             + length (digits 58 (from_digits 256 (map unat pl)))"
    by (rule length_EncodeAlphabet)
  show "19 \<le> length (EncodeAlphabet pl)" and "length (EncodeAlphabet pl) \<le> 26"
    by (rule length_EncodeAlphabet_bounds [OF assms])+
  show "ID_String pl = Returns (EncodeAlphabet pl)"
    using assms by (simp add: ID_String_short byteLength_def timeBytesLen_def randomBytesLen_def)
next
  assume h: "hd pl \<noteq> 0"
  show "length (EncodeAlphabet pl) = 25 \<longleftrightarrow> from_digits 256 (map unat pl) < 58 ^ 25"
    by (rule length_EncodeAlphabet_hd(1) [OF assms h])
  show "length (EncodeAlphabet pl) = 26 \<longleftrightarrow> 58 ^ 25 \<le> from_digits 256 (map unat pl)"
    by (rule length_EncodeAlphabet_hd(2) [OF assms h])
next
  assume v: "validatePrefix p True = None \<and> p \<noteq> []"
  then have sep: "CHR ''-'' \<notin> set p" and l: "length p = 3"
    by (auto simp: validatePrefix_True)
  have "byteLength < length p + 1 + length pl"
    using assms by (simp add: byteLength_def timeBytesLen_def randomBytesLen_def)
  from ID_String_prefixed [OF sep this]
  show "ID_String (bytes_of_string (p @ separator) @ pl)
            = Returns (p @ separator @ EncodeAlphabet pl)" .
  show "length (p @ separator @ EncodeAlphabet pl) = 4 + length (EncodeAlphabet pl)"
    using l by (simp add: separator_def)
qed

theorem C1_payload_text_length_witness:
  "length [2, 61, 162, 241, 141, 128, 0, 1, 2, 3, 4, 5, 6, 7, 8, 9, 10, 11, 12 :: byte] = 19
   \<and> length (EncodeAlphabet [2, 61, 162, 241, 141, 128, 0, 1, 2, 3, 4, 5, 6, 7, 8, 9, 10, 11, 12])
       = 25
   \<and> length (''acc'' @ separator
        @ EncodeAlphabet [2, 61, 162, 241, 141, 128, 0, 1, 2, 3, 4, 5, 6, 7, 8, 9, 10, 11, 12])
       = 29"
proof -
  let ?pl = "[2, 61, 162, 241, 141, 128, 0, 1, 2, 3, 4, 5, 6, 7, 8, 9, 10, 11, 12 :: byte]"
  have l: "length ?pl = 19" by simp
  have h: "hd ?pl \<noteq> 0" by simp
  have v: "from_digits 256 (map unat ?pl) < 58 ^ 25" by (simp add: from_digits_def)
  have a: "validatePrefix ''acc'' True = None \<and> ''acc'' \<noteq> []" by (simp add: valid_acc)
  note c = C1_payload_text_length [OF l, of "''acc''"]
  from c h v have e: "length (EncodeAlphabet ?pl) = 25" by blast
  from c a have "length (''acc'' @ separator @ EncodeAlphabet ?pl)
      = 4 + length (EncodeAlphabet ?pl)" by blast
  with e l show ?thesis by simp
qed

theorem C1_counterexample:
  "New [] 155088000000000000 (Some [1, 2, 3, 4, 5, 6, 7, 8, 9, 10, 11, 12])
     = Returns (Inr [5, 130, 132, 99, 125, 64, 0, 1, 2, 3, 4, 5, 6, 7, 8, 9, 10, 11, 12])
   \<and> ID_String [5, 130, 132, 99, 125, 64, 0, 1, 2, 3, 4, 5, 6, 7, 8, 9, 10, 11, 12]
       = Returns ''21WEdFvVpKrBCuRWxseMsafU3D''
   \<and> length ''21WEdFvVpKrBCuRWxseMsafU3D'' = 26"
  by (simp add: New_def newID_Nil ts_2026_12 ID_String_short byteLength_def timeBytesLen_def
      randomBytesLen_def enc_2026_12)

section \<open>Order of texts of equal length\<close>

lemma alphabets_ascending:
  "sorted_wrt (\<lambda>a b. (of_char a :: nat) < of_char b) alphabets"
  by (simp add: alphabets_def)

lemma alphabets_nth_less:
  "i < 58 \<Longrightarrow> j < 58 \<Longrightarrow>
     (of_char (alphabets ! i) :: nat) < of_char (alphabets ! j) \<longleftrightarrow> i < j"
proof -
  assume i: "i < 58" and j: "j < 58"
  have up: "(of_char (alphabets ! a) :: nat) < of_char (alphabets ! b)"
    if "a < b" "b < 58" for a b
    using alphabets_ascending that by (simp add: sorted_wrt_iff_nth_less)
  show ?thesis
  proof (cases i j rule: linorder_cases)
    case less
    with up [OF less j] show ?thesis by simp
  next
    case equal
    then show ?thesis by simp
  next
    case greater
    with up [OF greater i] show ?thesis by simp
  qed
qed

lemma alphabets_nth_eq: "i < 58 \<Longrightarrow> j < 58 \<Longrightarrow> alphabets ! i = alphabets ! j \<longleftrightarrow> i = j"
  using distinct_alphabets by (simp add: nth_eq_iff_index_eq)

lemma positional_less:
  fixes b n :: nat
  assumes "r1 < b ^ n" and "r2 < b ^ n"
  shows "d1 * b ^ n + r1 < d2 * b ^ n + r2 \<longleftrightarrow> d1 < d2 \<or> (d1 = d2 \<and> r1 < r2)"
proof (cases d1 d2 rule: linorder_cases)
  case less
  then have "d1 + 1 \<le> d2" by simp
  then have "(d1 + 1) * b ^ n \<le> d2 * b ^ n" by (rule mult_le_mono1)
  moreover have "d1 * b ^ n + r1 < (d1 + 1) * b ^ n" using assms(1) by simp
  ultimately have "d1 * b ^ n + r1 < d2 * b ^ n + r2" by linarith
  with less show ?thesis by simp
next
  case equal
  then show ?thesis by simp
next
  case greater
  then have "d2 + 1 \<le> d1" by simp
  then have "(d2 + 1) * b ^ n \<le> d1 * b ^ n" by (rule mult_le_mono1)
  moreover have "d2 * b ^ n + r2 < (d2 + 1) * b ^ n" using assms(2) by simp
  ultimately have "\<not> d1 * b ^ n + r1 < d2 * b ^ n + r2" by linarith
  with greater show ?thesis by simp
qed

lemma lex_less_digits:
  assumes "length ds1 = length ds2" and "set ds1 \<subseteq> {..<58}" and "set ds2 \<subseteq> {..<58}"
  shows "lex_less (map (\<lambda>d. alphabets ! d) ds1) (map (\<lambda>d. alphabets ! d) ds2)
           \<longleftrightarrow> from_digits 58 ds1 < from_digits 58 ds2"
  using assms
proof (induction ds1 ds2 rule: list_induct2)
  case Nil
  then show ?case by simp
next
  case (Cons d1 ds1 d2 ds2)
  then have d: "d1 < 58" "d2 < 58" and s: "set ds1 \<subseteq> {..<58}" "set ds2 \<subseteq> {..<58}"
    by simp_all
  have r: "from_digits 58 ds1 < 58 ^ length ds1" "from_digits 58 ds2 < 58 ^ length ds1"
    using from_digits_less [OF s(1)] from_digits_less [OF s(2)] Cons.hyps by simp_all
  have "lex_less (map (\<lambda>d. alphabets ! d) (d1 # ds1)) (map (\<lambda>d. alphabets ! d) (d2 # ds2))
      \<longleftrightarrow> d1 < d2 \<or> (d1 = d2 \<and> from_digits 58 ds1 < from_digits 58 ds2)"
    using Cons.IH [OF s] by (simp add: alphabets_nth_less [OF d] alphabets_nth_eq [OF d])
  also have "\<dots> \<longleftrightarrow> from_digits 58 (d1 # ds1) < from_digits 58 (d2 # ds2)"
    using positional_less [OF r, of d1 d2] Cons.hyps by (simp add: from_digits_Cons)
  finally show ?case .
qed

lemma EncodeAlphabet_as_digits:
  "\<exists>ds. EncodeAlphabet bin = map (\<lambda>d. alphabets ! d) ds \<and> set ds \<subseteq> {..<58}
     \<and> from_digits 58 ds = from_digits 256 (map unat bin)"
proof (intro exI conjI)
  let ?ds = "replicate (length (takeWhile (\<lambda>x. x = 0) bin)) 0
             @ digits 58 (from_digits 256 (map unat bin))"
  show "EncodeAlphabet bin = map (\<lambda>d. alphabets ! d) ?ds"
    by (simp add: EncodeAlphabet_eq alphabets_0)
  show "set ?ds \<subseteq> {..<58}" using digits_less [of 58] by auto
  show "from_digits 58 ?ds = from_digits 256 (map unat bin)"
    by (simp add: from_digits_digits)
qed

text \<open>Texts of the same length are ordered as the values of their payloads.\<close>

lemma lex_less_EncodeAlphabet:
  assumes "length (EncodeAlphabet a) = length (EncodeAlphabet b)"
  shows "lex_less (EncodeAlphabet a) (EncodeAlphabet b)
           \<longleftrightarrow> from_digits 256 (map unat a) < from_digits 256 (map unat b)"
proof -
  from EncodeAlphabet_as_digits [of a] obtain da where
    a: "EncodeAlphabet a = map (\<lambda>d. alphabets ! d) da" "set da \<subseteq> {..<58}"
      "from_digits 58 da = from_digits 256 (map unat a)"
    by blast
  from EncodeAlphabet_as_digits [of b] obtain db where
    b: "EncodeAlphabet b = map (\<lambda>d. alphabets ! d) db" "set db \<subseteq> {..<58}"
      "from_digits 58 db = from_digits 256 (map unat b)"
    by blast
  from assms have "length da = length db" unfolding a(1) b(1) by simp
  from lex_less_digits [OF this a(2) b(2)] show ?thesis
    unfolding a(1) b(1) a(3) b(3) .
qed

lemma lex_less_append: "lex_less (p @ s) (p @ t) \<longleftrightarrow> lex_less s t"
  by (induction p) simp_all

text \<open>Two identifiers generated with the same prefix, the second at a later tick: if their
  texts have the same length, the first text is the smaller one.\<close>

lemma generated_order_same_length:
  assumes n1: "New p e1 entropy1 = Returns (Inr t1)"
    and n2: "New p e2 entropy2 = Returns (Inr t2)"
    and e: "0 \<le> e1" "e1 div 100 < e2 div 100" "e2 < 100 * 2 ^ 56"
    and s: "ID_String t1 = Returns s1" "ID_String t2 = Returns s2"
    and l: "length s1 = length s2"
  shows "lex_less s1 s2 \<and> \<not> lex_less s2 s1"
proof -
  let ?pre = "if p = [] then [] else p @ separator"
  from generated_text(1) [OF n1] s(1) have s1: "s1 = ?pre @ EncodeAlphabet (payload t1)" by simp
  from generated_text(1) [OF n2] s(2) have s2: "s2 = ?pre @ EncodeAlphabet (payload t2)" by simp
  from l have len: "length (EncodeAlphabet (payload t1)) = length (EncodeAlphabet (payload t2))"
    unfolding s1 s2 by simp
  from e have e2: "0 \<le> e2" and e1: "e1 < 100 * 2 ^ 56"
    by (simp_all add: div_less_iff_less_mult zdiv_mono1 pos_imp_zdiv_nonneg_iff)
  from generated_payload_value [OF n1 e(1) e1] obtain R1 where
    R1: "R1 < 2 ^ 96" and
    v1: "from_digits 256 (map unat (payload t1)) = nat (e1 div 100) * 2 ^ 96 + R1"
    by blast
  from generated_payload_value [OF n2 e2 e(3)] obtain R2 where
    v2: "from_digits 256 (map unat (payload t2)) = nat (e2 div 100) * 2 ^ 96 + R2"
    by blast
  from e(1,2) have "nat (e1 div 100) + 1 \<le> nat (e2 div 100)" by simp
  then have "(nat (e1 div 100) + 1) * 2 ^ 96 \<le> nat (e2 div 100) * 2 ^ 96"
    by (rule mult_le_mono1)
  moreover have "nat (e1 div 100) * 2 ^ 96 + R1 < (nat (e1 div 100) + 1) * 2 ^ 96"
    using R1 by simp
  ultimately have lt: "from_digits 256 (map unat (payload t1))
      < from_digits 256 (map unat (payload t2))"
    unfolding v1 v2 by linarith
  from lex_less_EncodeAlphabet [OF len] lex_less_EncodeAlphabet [OF len [symmetric]] lt
  show ?thesis unfolding s1 s2 lex_less_append by simp
qed

section \<open>Prefixed identifiers and the order of texts\<close>

text \<open>\<^bold>\<open>C8\<close>, as the code has it. \<^verbatim>\<open>Parse(GenerateWithPrefix("rid"))\<close> succeeds, for every
  clock reading from 800 seconds after the epoch until the 56-bit tick field overflows,
  and \<^verbatim>\<open>String\<close> of the identifier is the generated text again, which starts with
  \<open>rid-\<close>. That text has 29 characters from \<open>2 ^ 48\<close> ticks after the epoch
  (2022-11-22) until 2026-11-15, 12:50:16 UTC, and 30 characters afterwards; in the
  first 326 days it has 29 or 30.\<close>

theorem C8_rid_roundtrip:
  assumes "GenerateWithPrefix ''rid'' elapsed entropy = Returns s"
  shows "(800000000000 \<le> elapsed \<and> elapsed < 100 * 2 ^ 56 \<longrightarrow>
            (\<exists>t. Parse s = Inr t \<and> ID_String t = Returns s)
            \<and> take 4 s = ''rid-'' \<and> (length s = 29 \<or> length s = 30))
    \<and> (100 * 2 ^ 48 \<le> elapsed \<and> elapsed < 153751816458818800 \<longrightarrow> length s = 29)
    \<and> (153751816458818900 \<le> elapsed \<and> elapsed < 100 * 2 ^ 56 \<longrightarrow> length s = 30)"
proof -
  have "CHR ''-'' \<notin> set ''rid''" by simp
  from GenerateWithPrefix_Returns [OF assms this] obtain t where
    n: "New ''rid'' elapsed entropy = Returns (Inr t)" and str: "ID_String t = Returns s"
    by blast
  note g = generated_text [OF n]
  from g(1) str have s: "s = ''rid'' @ separator @ EncodeAlphabet (payload t)" by simp
  then have len: "length s = 4 + length (EncodeAlphabet (payload t))"
    and pre: "take 4 s = ''rid-''"
    by (simp_all add: separator_def)
  have p: "Parse s = (if length (EncodeAlphabet (payload t)) < 25
      then Inl errStringSizeMismatch else Inr t)"
    using g(2) s by simp
  note b = length_EncodeAlphabet_bounds [OF g(3)]
  show ?thesis
  proof (intro conjI impI)
    assume e: "800000000000 \<le> elapsed \<and> elapsed < 100 * 2 ^ 56"
    from generated_length_ge_25 [OF n e] have l: "25 \<le> length (EncodeAlphabet (payload t))" .
    with p str show "\<exists>t. Parse s = Inr t \<and> ID_String t = Returns s" by auto
    show "take 4 s = ''rid-''" by (rule pre)
    from l b(2) len show "length s = 29 \<or> length s = 30" by arith
  next
    assume "100 * 2 ^ 48 \<le> elapsed \<and> elapsed < 153751816458818800"
    then have "length (EncodeAlphabet (payload t)) = 25"
      using generated_length_25 [OF n] by blast
    with len show "length s = 29" by simp
  next
    assume "153751816458818900 \<le> elapsed \<and> elapsed < 100 * 2 ^ 56"
    then have "length (EncodeAlphabet (payload t)) = 26"
      using generated_length_26 [OF n] by blast
    with len show "length s = 30" by simp
  qed
qed

theorem C8_rid_roundtrip_witness:
  "GenerateWithPrefix ''rid'' 44582400000000000 (Some [1, 2, 3, 4, 5, 6, 7, 8, 9, 10, 11, 12])
     = Returns ''rid-HpSLhPAWfVEdFYKyte9X98JkK''
   \<and> (\<exists>t. Parse ''rid-HpSLhPAWfVEdFYKyte9X98JkK'' = Inr t
          \<and> ID_String t = Returns ''rid-HpSLhPAWfVEdFYKyte9X98JkK'')
   \<and> take 4 ''rid-HpSLhPAWfVEdFYKyte9X98JkK'' = ''rid-''
   \<and> length ''rid-HpSLhPAWfVEdFYKyte9X98JkK'' = 29"
proof -
  have "''rid'' \<noteq> []" by simp
  from GenerateWithPrefix_eq [OF valid_rid this, of 44582400000000000
      "[1, 2, 3, 4, 5, 6, 7, 8, 9, 10, 11, 12]"]
  have g: "GenerateWithPrefix ''rid'' 44582400000000000
      (Some [1, 2, 3, 4, 5, 6, 7, 8, 9, 10, 11, 12]) = Returns ''rid-HpSLhPAWfVEdFYKyte9X98JkK''"
    by (simp add: ts_2023 enc_2023 separator_def)
  have e: "(800000000000 :: int) \<le> 44582400000000000
      \<and> (44582400000000000 :: int) < 100 * 2 ^ 56"
    by simp
  from C8_rid_roundtrip [OF g, THEN conjunct1, rule_format, OF e] g
  show ?thesis by simp
qed

theorem C8_counterexample:
  "GenerateWithPrefix ''rid'' 157766400000000000 (Some [1, 2, 3, 4, 5, 6, 7, 8, 9, 10, 11, 12])
     = Returns ''rid-22WqXouohTDbA6KQqTVhopALZ9''
   \<and> Parse ''rid-22WqXouohTDbA6KQqTVhopALZ9''
       = Inr (bytes_of_string ''rid-''
           @ [5, 154, 224, 134, 75, 128, 0, 1, 2, 3, 4, 5, 6, 7, 8, 9, 10, 11, 12])
   \<and> ID_String (bytes_of_string ''rid-''
         @ [5, 154, 224, 134, 75, 128, 0, 1, 2, 3, 4, 5, 6, 7, 8, 9, 10, 11, 12])
       = Returns ''rid-22WqXouohTDbA6KQqTVhopALZ9''
   \<and> length ''rid-22WqXouohTDbA6KQqTVhopALZ9'' = 30"
proof -
  let ?pl = "[5, 154, 224, 134, 75, 128, 0, 1, 2, 3, 4, 5, 6, 7, 8, 9, 10, 11, 12 :: byte]"
  have ne: "''rid'' \<noteq> []" by simp
  from GenerateWithPrefix_eq [OF valid_rid ne, of 157766400000000000
      "[1, 2, 3, 4, 5, 6, 7, 8, 9, 10, 11, 12]"]
  have g: "GenerateWithPrefix ''rid'' 157766400000000000
      (Some [1, 2, 3, 4, 5, 6, 7, 8, 9, 10, 11, 12]) = Returns ''rid-22WqXouohTDbA6KQqTVhopALZ9''"
    by (simp add: ts_2027 enc_2027 separator_def)
  have "?pl \<noteq> []" by simp
  from Parse_prefixed [OF valid_rid this]
  have p: "Parse ''rid-22WqXouohTDbA6KQqTVhopALZ9'' = Inr (bytes_of_string ''rid-'' @ ?pl)"
    by (simp add: enc_2027 separator_def)
  have "CHR ''-'' \<notin> set ''rid''" and "byteLength < length ''rid'' + 1 + length ?pl"
    by (simp_all add: byteLength_def timeBytesLen_def randomBytesLen_def)
  from ID_String_prefixed [OF this]
  have s: "ID_String (bytes_of_string ''rid-'' @ ?pl) = Returns ''rid-22WqXouohTDbA6KQqTVhopALZ9''"
    by (simp add: enc_2027 separator_def)
  from g p s show ?thesis by simp
qed

text \<open>\<^bold>\<open>C2\<close>. The order of the texts is the order of generation as long as the payload
  text keeps its length; the code does not pad, so at the tick where the text grows from
  25 to 26 characters the later identifier sorts first. Two identifiers generated with
  prefix \<open>acc\<close> one tick apart, at ticks 1537518164588188 and 1537518164588189
  (2026-11-15, 12:50:16 UTC), with the same random bytes: the second text is
  lexically smaller than the first.\<close>

theorem C2_failing_input:
  "GenerateWithPrefix ''acc'' 153751816458818800 (Some (replicate 12 0))
     = Returns ''acc-zzzzzzzzwFHo4SCDRhkVTGiXy''
   \<and> GenerateWithPrefix ''acc'' 153751816458818900 (Some (replicate 12 0))
     = Returns ''acc-21111111125V5X3soqeaQzq7gb''
   \<and> lex_less ''acc-21111111125V5X3soqeaQzq7gb'' ''acc-zzzzzzzzwFHo4SCDRhkVTGiXy''
   \<and> \<not> lex_less ''acc-zzzzzzzzwFHo4SCDRhkVTGiXy'' ''acc-21111111125V5X3soqeaQzq7gb''"
proof -
  have ne: "''acc'' \<noteq> []" by simp
  have r: "take 12 (replicate 12 (0 :: byte)) @ replicate (12 - length (replicate 12 (0 :: byte))) 0
      = [0, 0, 0, 0, 0, 0, 0, 0, 0, 0, 0, 0]"
    by (simp add: numeral_eq_Suc)
  from GenerateWithPrefix_eq [OF valid_acc ne, of 153751816458818800 "replicate 12 0"]
  have a: "GenerateWithPrefix ''acc'' 153751816458818800 (Some (replicate 12 0))
      = Returns ''acc-zzzzzzzzwFHo4SCDRhkVTGiXy''"
    by (simp only: r ts_before append.simps enc_before separator_def)
  from GenerateWithPrefix_eq [OF valid_acc ne, of 153751816458818900 "replicate 12 0"]
  have b: "GenerateWithPrefix ''acc'' 153751816458818900 (Some (replicate 12 0))
      = Returns ''acc-21111111125V5X3soqeaQzq7gb''"
    by (simp only: r ts_after append.simps enc_after separator_def)
  have c: "lex_less ''acc-21111111125V5X3soqeaQzq7gb'' ''acc-zzzzzzzzwFHo4SCDRhkVTGiXy''"
    and d: "\<not> lex_less ''acc-zzzzzzzzwFHo4SCDRhkVTGiXy'' ''acc-21111111125V5X3soqeaQzq7gb''"
    by simp_all
  from a b c d show ?thesis by blast
qed

end
